theory Spec2Isabelle
  imports Main "HOL-Library.AList" "HOL-Library.Multiset"
begin

section \<open>Data model\<close>

text \<open>
  The program is \<^verbatim>\<open>src/main.go\<close>. Go strings are byte strings: \<^typ>\<open>string\<close> (one
  \<^typ>\<open>char\<close> per byte). Go's \<^verbatim>\<open>int\<close> is modelled by \<^typ>\<open>int\<close>: the counters of
  the program count files and posts and cannot reach \<open>2^63\<close>.

  The feed types of the indigo library, reduced to the fields the program reads:
  an image set is the list of the \<^verbatim>\<open>Fullsize\<close> URLs of its images, a video view is its
  \<^verbatim>\<open>Playlist\<close> URL, and a nil pointer is \<^term>\<open>None\<close>.
\<close>

type_synonym images_view = "string list"

type_synonym video_view = string

record media_view =
  MediaImages :: "images_view option"
  MediaVideo :: "video_view option"

record embed_view =
  EmbedImages :: "images_view option"
  EmbedVideo :: "video_view option"
  EmbedRecordWithMedia :: "media_view option option"
    \<comment> \<open>outer option: \<^verbatim>\<open>EmbedRecordWithMedia_View\<close>; inner option: its \<^verbatim>\<open>Media\<close>\<close>

record post_view =
  Uri :: string
  Embed :: "embed_view option"

record likes_output =
  Feed :: "post_view list"
  Cursor :: "string option"

text \<open>Every \<^verbatim>\<open>fmt.Errorf\<close> site and every library error the program passes on.\<close>

datatype error =
    OpenError
  | ScanError
  | CreateError
  | WriteError
  | FailedToReadDownloadDir
  | FailedToSaveCacheAfterSync error
  | FailedToCreateDownloadDir
  | AuthenticationFailed
  | FailedToLoadCache error
  | FailedToFetchLikes
  | FailedToFetchInitialLikes
  | FailedToDownload
  | BadStatus nat
  | FailedToCreateFile
  | FailedToWriteFile
  | FfmpegFailed

text \<open>The text of a push notification, by its format string and its argument.\<close>

datatype notification = NoteDownloaded int | NoteStarted

text \<open>
  Every call that leaves the process, with the answer it got. The list of the calls made
  so far is the history of the run.
\<close>

datatype call =
    MkdirAll bool
  | CreateSession bool
  | OpenCacheFile bool
  | ScanCacheFile bool
  | CreateCacheFile bool
  | WriteCacheFile bool
  | ReadDir bool
  | FeedGetActorLikes string bool
  | HttpGet string "nat option"
  | OsCreate string bool
  | IoCopy string bool
  | Ffmpeg string string bool
  | NtfyPost string notification bool
  | Sleep

text \<open>Every line the program prints, by its format string and its arguments.\<close>

datatype msg =
    MsgNoCacheFile
  | MsgCached int
  | MsgSynced int
  | MsgCacheHit string
  | MsgDownloading string
  | MsgDownloadingVideo string
  | MsgWarnCache error
  | MsgSaved string
  | MsgSaveCursor
  | MsgRestoreCursor
  | MsgProcessing int int int
  | MsgReachedLimit int
  | MsgTotal int
  | MsgErrorImages error
  | MsgErrorVideo error
  | MsgLoadingLikes
  | MsgTracking nat
  | MsgErrorFetching
  | MsgNewLike string
  | MsgErrorMedia error
  | MsgDownloaded int
  | MsgWarnNotify
  | MsgAuthenticating
  | MsgAuthenticated

text \<open>
  The environment: the library functions the program calls and the answers of the outside
  world. An answer may depend on the whole history, so the same request can succeed once
  and fail later. \<open>sha256hex\<close> is \<^verbatim>\<open>hex.EncodeToString(sha256.Sum256(..))\<close>;
  \<open>rangeOrder\<close> is the order in which a \<^verbatim>\<open>range\<close> over the cache map visits its keys.
  \<open>openCache\<close> is false when \<^verbatim>\<open>os.Open\<close> fails with an error other than
  \<^verbatim>\<open>os.IsNotExist\<close>.
\<close>

datatype scan_result = ScanOk | ScanFailsAfter nat

datatype write_result = WriteOk | WriteFailsAfter nat

datatype ffmpeg_result = ExitZero | ExitNonZero bool
  \<comment> \<open>\<open>ExitNonZero True\<close>: the failed run left an output file behind\<close>

record env =
  sha256hex :: "string \<Rightarrow> string"
  rangeOrder :: "call list \<Rightarrow> string list \<Rightarrow> string list"
  mkdirAll :: "call list \<Rightarrow> bool"
  createSession :: "call list \<Rightarrow> bool"
  openCache :: "call list \<Rightarrow> bool"
  scanCache :: "call list \<Rightarrow> scan_result"
  createCache :: "call list \<Rightarrow> bool"
  writeCache :: "call list \<Rightarrow> write_result"
  readDir :: "call list \<Rightarrow> bool"
  feedGetActorLikes :: "call list \<Rightarrow> string \<Rightarrow> likes_output option"
  httpGet :: "call list \<Rightarrow> string \<Rightarrow> nat option"
  osCreate :: "call list \<Rightarrow> string \<Rightarrow> bool"
  ioCopy :: "call list \<Rightarrow> string \<Rightarrow> bool"
  runFfmpeg :: "call list \<Rightarrow> string \<Rightarrow> ffmpeg_result"
  ntfyPost :: "call list \<Rightarrow> string \<Rightarrow> notification \<Rightarrow> bool"

text \<open>
  The state of a run: the \<^verbatim>\<open>MediaFetcher\<close>'s in-memory map (a \<^verbatim>\<open>map[string]bool\<close>, as an
  association list), the persisted listing (the bytes of the file at \<^verbatim>\<open>cacheFile\<close>,
  \<^term>\<open>None\<close> when there is no such file), the direct entries of the download directory
  (name and \<^verbatim>\<open>IsDir\<close>), the history and the standard output.
\<close>

record world =
  downloadedFiles :: "(string \<times> bool) list"
  cacheFile :: "string option"
  storage :: "(string \<times> bool) list"
  calls :: "call list"
  stdout :: "msg list"

definition say :: "msg \<Rightarrow> world \<Rightarrow> world" where
  "say m w = w\<lparr>stdout := stdout w @ [m]\<rparr>"

definition called :: "call \<Rightarrow> world \<Rightarrow> world" where
  "called c w = w\<lparr>calls := calls w @ [c]\<rparr>"

text \<open>Reading a Go map: a missing key reads as the zero value \<^verbatim>\<open>false\<close>.\<close>

definition lookup :: "(string \<times> bool) list \<Rightarrow> string \<Rightarrow> bool" where
  "lookup m k = (case map_of m k of None \<Rightarrow> False | Some b \<Rightarrow> b)"

definition keys :: "world \<Rightarrow> string list" where
  "keys w = map fst (downloadedFiles w)"

text \<open>\<^verbatim>\<open>os.Create\<close> in the download directory: the file exists afterwards.\<close>

definition createFile :: "string \<Rightarrow> (string \<times> bool) list \<Rightarrow> (string \<times> bool) list" where
  "createFile f st = (if f \<in> fst ` set st then st else st @ [(f, False)])"

section \<open>Library functions\<close>

text \<open>
  \<^verbatim>\<open>bufio.ScanLines\<close>: the lines end at \<^verbatim>\<open>\n\<close>, one trailing \<^verbatim>\<open>\r\<close> of a line is
  dropped, and a last line without a newline counts when it is not empty.
\<close>

definition newline :: char where
  "newline = CHR 0x0A"

definition dropCR :: "string \<Rightarrow> string" where
  "dropCR l = (if l \<noteq> [] \<and> last l = CHR 0x0D then butlast l else l)"

fun scanFrom :: "string \<Rightarrow> string \<Rightarrow> string list" where
  "scanFrom cur [] = (if cur = [] then [] else [dropCR cur])"
| "scanFrom cur (c # cs) =
     (if c = newline then dropCR cur # scanFrom [] cs else scanFrom (cur @ [c]) cs)"

definition scanLines :: "string \<Rightarrow> string list" where
  "scanLines s = scanFrom [] s"

text \<open>
  \<^verbatim>\<open>strings.TrimSpace\<close>: leading and trailing white space (\<^verbatim>\<open>unicode.IsSpace\<close>) is cut.
  On bytes: the six ASCII spaces, and the UTF-8 encodings of U+0085, U+00A0, U+1680,
  U+2000 to U+200A, U+2028, U+2029, U+202F, U+205F and U+3000.
\<close>

definition asciiSpace :: "char \<Rightarrow> bool" where
  "asciiSpace c = (c \<in> set [CHR 0x09, CHR 0x0A, CHR 0x0B, CHR 0x0C, CHR 0x0D, CHR 0x20])"

definition space2 :: "char \<Rightarrow> char \<Rightarrow> bool" where
  "space2 a b = (a = CHR 0xC2 \<and> (b = CHR 0x85 \<or> b = CHR 0xA0))"

definition space3 :: "char \<Rightarrow> char \<Rightarrow> char \<Rightarrow> bool" where
  "space3 a b c =
     ((a = CHR 0xE1 \<and> b = CHR 0x9A \<and> c = CHR 0x80) \<or>
      (a = CHR 0xE2 \<and> b = CHR 0x80 \<and>
         c \<in> set [CHR 0x80, CHR 0x81, CHR 0x82, CHR 0x83, CHR 0x84, CHR 0x85, CHR 0x86,
                  CHR 0x87, CHR 0x88, CHR 0x89, CHR 0x8A, CHR 0xA8, CHR 0xA9, CHR 0xAF]) \<or>
      (a = CHR 0xE2 \<and> b = CHR 0x81 \<and> c = CHR 0x9F) \<or>
      (a = CHR 0xE3 \<and> b = CHR 0x80 \<and> c = CHR 0x80))"

fun trimLeft :: "string \<Rightarrow> string" where
  "trimLeft (a # b # c # cs) =
     (if asciiSpace a then trimLeft (b # c # cs)
      else if space2 a b then trimLeft (c # cs)
      else if space3 a b c then trimLeft cs
      else a # b # c # cs)"
| "trimLeft [a, b] =
     (if asciiSpace a then trimLeft [b] else if space2 a b then [] else [a, b])"
| "trimLeft [a] = (if asciiSpace a then [] else [a])"
| "trimLeft [] = []"

text \<open>The same from the end, on the reversed string.\<close>

fun trimLeftRev :: "string \<Rightarrow> string" where
  "trimLeftRev (c # b # a # cs) =
     (if asciiSpace c then trimLeftRev (b # a # cs)
      else if space2 b c then trimLeftRev (a # cs)
      else if space3 a b c then trimLeftRev cs
      else c # b # a # cs)"
| "trimLeftRev [c, b] =
     (if asciiSpace c then trimLeftRev [b] else if space2 b c then [] else [c, b])"
| "trimLeftRev [c] = (if asciiSpace c then [] else [c])"
| "trimLeftRev [] = []"

definition TrimSpace :: "string \<Rightarrow> string" where
  "TrimSpace s = rev (trimLeftRev (rev (trimLeft s)))"

section \<open>Content cache\<close>

text \<open>\<^verbatim>\<open>isDownloaded\<close> (lines 306 to 308).\<close>

definition isDownloaded :: "world \<Rightarrow> string \<Rightarrow> bool" where
  "isDownloaded w filename = lookup (downloadedFiles w) filename"

text \<open>
  \<^verbatim>\<open>saveCache\<close> (lines 254 to 269): the file is created anew (truncated), then one line per
  key of the map is written, in the order of the \<^verbatim>\<open>range\<close>. A failed write leaves the
  bytes that reached the file.
\<close>

definition listing :: "string list \<Rightarrow> string" where
  "listing ks = concat (map (\<lambda>filename. filename @ [newline]) ks)"

definition saveCache :: "env \<Rightarrow> world \<Rightarrow> error option \<times> world" where
  "saveCache e w =
     (let ok = createCache e (calls w); w1 = called (CreateCacheFile ok) w in
      if \<not> ok then (Some CreateError, w1)
      else
        let content = listing (rangeOrder e (calls w1) (keys w1)) in
        case writeCache e (calls w1) of
          WriteFailsAfter n \<Rightarrow>
            (Some WriteError, called (WriteCacheFile False) (w1\<lparr>cacheFile := Some (take n content)\<rparr>))
        | WriteOk \<Rightarrow>
            (None, called (WriteCacheFile True) (w1\<lparr>cacheFile := Some content\<rparr>)))"

text \<open>\<^verbatim>\<open>loadCache\<close> (lines 224 to 251). The loop over the scanned lines comes first.\<close>

fun loadLines :: "string list \<Rightarrow> (string \<times> bool) list \<Rightarrow> int \<Rightarrow> (string \<times> bool) list \<times> int" where
  "loadLines [] m cnt = (m, cnt)"
| "loadLines (l # ls) m cnt =
     (let filename = TrimSpace l in
      if filename \<noteq> [] then loadLines ls (AList.update filename True m) (cnt + 1)
      else loadLines ls m cnt)"

definition loadCache :: "env \<Rightarrow> world \<Rightarrow> error option \<times> world" where
  "loadCache e w =
     (if \<not> openCache e (calls w) then (Some OpenError, called (OpenCacheFile False) w)
      else
        case cacheFile w of
          None \<Rightarrow> (None, say MsgNoCacheFile (called (OpenCacheFile False) w))
        | Some content \<Rightarrow>
            (let w1 = called (OpenCacheFile True) w in
             case scanCache e (calls w1) of
              ScanFailsAfter n \<Rightarrow>
                (let (m, cnt) = loadLines (take n (scanLines content)) (downloadedFiles w1) 0
                 in (Some ScanError, called (ScanCacheFile False) (w1\<lparr>downloadedFiles := m\<rparr>)))
            | ScanOk \<Rightarrow>
                (let (m, cnt) = loadLines (scanLines content) (downloadedFiles w1) 0
                 in (None, say (MsgCached cnt)
                             (called (ScanCacheFile True) (w1\<lparr>downloadedFiles := m\<rparr>))))))"

text \<open>\<^verbatim>\<open>syncCacheFromDirectory\<close> (lines 273 to 297).\<close>

fun syncEntries :: "(string \<times> bool) list \<Rightarrow> (string \<times> bool) list \<Rightarrow> int \<Rightarrow> (string \<times> bool) list \<times> int" where
  "syncEntries [] m added = (m, added)"
| "syncEntries ((filename, isDir) # entries) m added =
     (if isDir then syncEntries entries m added
      else if \<not> lookup m filename
        then syncEntries entries (AList.update filename True m) (added + 1)
      else syncEntries entries m added)"

definition syncCacheFromDirectory :: "env \<Rightarrow> world \<Rightarrow> error option \<times> world" where
  "syncCacheFromDirectory e w =
     (let ok = readDir e (calls w); w1 = called (ReadDir ok) w in
      if \<not> ok then (Some FailedToReadDownloadDir, w1)
      else
        let (m, added) = syncEntries (storage w1) (downloadedFiles w1) 0;
            w2 = w1\<lparr>downloadedFiles := m\<rparr>
        in if added > 0
           then (case saveCache e (say (MsgSynced added) w2) of
                   (Some err, w3) \<Rightarrow> (Some (FailedToSaveCacheAfterSync err), w3)
                 | (None, w3) \<Rightarrow> (None, w3))
           else (None, w2))"

text \<open>\<^verbatim>\<open>markDownloaded\<close> (lines 300 to 303).\<close>

definition markDownloaded :: "env \<Rightarrow> string \<Rightarrow> world \<Rightarrow> error option \<times> world" where
  "markDownloaded e filename w =
     saveCache e (w\<lparr>downloadedFiles := AList.update filename True (downloadedFiles w)\<rparr>)"

text \<open>
  \<^verbatim>\<open>NewMediaFetcher\<close> (lines 47 to 92): the directory is made, the session is created, the
  map starts empty, the listing is loaded and the directory is reconciled. \<^term>\<open>Inl\<close> is
  the error return.
\<close>

definition NewMediaFetcher :: "env \<Rightarrow> world \<Rightarrow> error + world" where
  "NewMediaFetcher e w =
     (let made = mkdirAll e (calls w); w1 = called (MkdirAll made) w in
      if \<not> made then Inl FailedToCreateDownloadDir
      else
        let w2 = say MsgAuthenticating w1;
            auth = createSession e (calls w2);
            w3 = called (CreateSession auth) w2
        in if \<not> auth then Inl AuthenticationFailed
           else
             let w4 = (say MsgAuthenticated w3)\<lparr>downloadedFiles := []\<rparr> in
             (case loadCache e w4 of
                (Some err, w5) \<Rightarrow> Inl (FailedToLoadCache err)
              | (None, w5) \<Rightarrow>
                  (case syncCacheFromDirectory e w5 of
                     (Some err, w6) \<Rightarrow> Inl (FailedToSaveCacheAfterSync err)
                   | (None, w6) \<Rightarrow> Inr w6)))"

section \<open>Media retriever\<close>

text \<open>
  \<^verbatim>\<open>filepath.Ext\<close> (Unix): the index runs from the end of the string down to the last
  \<^verbatim>\<open>/\<close>; at the first dot it meets, the rest of the string from that dot is the
  extension. \<open>extFrom path (Suc i)\<close> is the loop at index \<open>i\<close>.
\<close>

fun extFrom :: "string \<Rightarrow> nat \<Rightarrow> string" where
  "extFrom path 0 = []"
| "extFrom path (Suc i) =
     (if path ! i = CHR ''/'' then []
      else if path ! i = CHR ''.'' then drop i path
      else extFrom path i)"

definition Ext :: "string \<Rightarrow> string" where
  "Ext path = extFrom path (length path)"

text \<open>\<^verbatim>\<open>strings.Contains\<close>.\<close>

fun Contains :: "string \<Rightarrow> string \<Rightarrow> bool" where
  "Contains [] substr = (substr = [])"
| "Contains (c # cs) substr = (take (length substr) (c # cs) = substr \<or> Contains cs substr)"

text \<open>The extension and the file name of \<^verbatim>\<open>downloadFile\<close> (lines 413 to 426).\<close>

definition resolveExt :: "string \<Rightarrow> string \<Rightarrow> string" where
  "resolveExt url mediaType =
     (let ext = Ext url in
      if ext = [] then
        (if Contains url ''m3u8'' then ''.m3u8''
         else if mediaType = ''image'' then ''.png''
         else ''.mp4'')
      else ext)"

definition resolveFilename :: "env \<Rightarrow> string \<Rightarrow> string \<Rightarrow> string" where
  "resolveFilename e url mediaType = sha256hex e url @ resolveExt url mediaType"

text \<open>
  The end of both retrievers (lines 455 to 461 and 401 to 407): the file name is
  recorded, a failed save is only a warning, and one new file is counted.
\<close>

definition recordSaved :: "env \<Rightarrow> string \<Rightarrow> world \<Rightarrow> int \<times> error option \<times> world" where
  "recordSaved e filename w =
     (case markDownloaded e filename w of
        (Some err, w1) \<Rightarrow> (1, None, say (MsgSaved filename) (say (MsgWarnCache err) w1))
      | (None, w1) \<Rightarrow> (1, None, say (MsgSaved filename) w1))"

text \<open>\<^verbatim>\<open>downloadFile\<close> (lines 411 to 462). \<^verbatim>\<open>http.StatusOK\<close> is 200.\<close>

definition downloadFile :: "env \<Rightarrow> string \<Rightarrow> string \<Rightarrow> world \<Rightarrow> int \<times> error option \<times> world" where
  "downloadFile e url mediaType w =
     (let filename = resolveFilename e url mediaType in
      if isDownloaded w filename then (0, None, say (MsgCacheHit filename) w)
      else
        let w1 = say (MsgDownloading url) w;
            resp = httpGet e (calls w1) url;
            w2 = called (HttpGet url resp) w1
        in (case resp of
              None \<Rightarrow> (0, Some FailedToDownload, w2)
            | Some status \<Rightarrow>
                if status \<noteq> 200 then (0, Some (BadStatus status), w2)
                else
                  let created = osCreate e (calls w2) filename;
                      w3 = called (OsCreate filename created) w2
                  in if \<not> created then (0, Some FailedToCreateFile, w3)
                     else
                       let w4 = w3\<lparr>storage := createFile filename (storage w3)\<rparr>;
                           copied = ioCopy e (calls w4) filename;
                           w5 = called (IoCopy filename copied) w4
                       in if \<not> copied then (0, Some FailedToWriteFile, w5)
                          else recordSaved e filename w5))"

text \<open>\<^verbatim>\<open>downloadVideo\<close> (lines 373 to 408).\<close>

definition downloadVideo :: "env \<Rightarrow> video_view \<Rightarrow> world \<Rightarrow> int \<times> error option \<times> world" where
  "downloadVideo e playlist w =
     (if playlist = [] then (0, None, w)
      else
        let filename = sha256hex e playlist @ ''.mp4'' in
        if isDownloaded w filename then (0, None, say (MsgCacheHit filename) w)
        else
          let w1 = say (MsgDownloadingVideo playlist) w;
              res = runFfmpeg e (calls w1) playlist
          in (case res of
                ExitNonZero left \<Rightarrow>
                  (0, Some FfmpegFailed,
                   called (Ffmpeg playlist filename False)
                     (if left then w1\<lparr>storage := createFile filename (storage w1)\<rparr> else w1))
              | ExitZero \<Rightarrow>
                  recordSaved e filename
                    (called (Ffmpeg playlist filename True)
                       (w1\<lparr>storage := createFile filename (storage w1)\<rparr>))))"

text \<open>
  \<^verbatim>\<open>downloadImages\<close> (lines 356 to 369); \<open>imagesLoop\<close> is its loop, with the running
  \<^verbatim>\<open>downloadCount\<close>.
\<close>

fun imagesLoop :: "env \<Rightarrow> images_view \<Rightarrow> int \<Rightarrow> int \<Rightarrow> world \<Rightarrow> int \<times> error option \<times> world" where
  "imagesLoop e [] limit downloadCount w = (downloadCount, None, w)"
| "imagesLoop e (img # imgs) limit downloadCount w =
     (if downloadCount \<ge> limit then (downloadCount, None, w)
      else
        case downloadFile e img ''image'' w of
          (downloaded, Some err, w1) \<Rightarrow> (downloadCount, Some err, w1)
        | (downloaded, None, w1) \<Rightarrow> imagesLoop e imgs limit (downloadCount + downloaded) w1)"

definition downloadImages :: "env \<Rightarrow> images_view \<Rightarrow> int \<Rightarrow> world \<Rightarrow> int \<times> error option \<times> world" where
  "downloadImages e images limit w = imagesLoop e images limit 0 w"

text \<open>
  \<^verbatim>\<open>downloadPostMedia\<close> (lines 311 to 353). \<open>andThen\<close> is its repeated step
  \<^verbatim>\<open>downloaded += n; if err != nil { return downloaded, err }\<close>.
\<close>

definition andThen ::
  "int \<times> error option \<times> world \<Rightarrow> (world \<Rightarrow> int \<times> error option \<times> world) \<Rightarrow> int \<times> error option \<times> world" where
  "andThen r f =
     (case r of
        (downloaded, Some err, w) \<Rightarrow> (downloaded, Some err, w)
      | (downloaded, None, w) \<Rightarrow>
          (case f w of (n, err, w1) \<Rightarrow> (downloaded + n, err, w1)))"

definition allImages :: "env \<Rightarrow> images_view option \<Rightarrow> world \<Rightarrow> int \<times> error option \<times> world" where
  "allImages e view w =
     (case view of
        None \<Rightarrow> (0, None, w)
      | Some images \<Rightarrow> downloadImages e images (int (length images)) w)"

definition theVideo :: "env \<Rightarrow> video_view option \<Rightarrow> world \<Rightarrow> int \<times> error option \<times> world" where
  "theVideo e view w =
     (case view of
        None \<Rightarrow> (0, None, w)
      | Some video \<Rightarrow> downloadVideo e video w)"

definition downloadPostMedia :: "env \<Rightarrow> embed_view option \<Rightarrow> world \<Rightarrow> int \<times> error option \<times> world" where
  "downloadPostMedia e view w =
     (case view of
        None \<Rightarrow> (0, None, w)
      | Some emb \<Rightarrow>
          (let r1 = andThen (0, None, w) (allImages e (EmbedImages emb));
               r2 = andThen r1 (theVideo e (EmbedVideo emb))
           in case EmbedRecordWithMedia emb of
                Some (Some media) \<Rightarrow>
                  andThen (andThen r2 (allImages e (MediaImages media)))
                    (theVideo e (MediaVideo media))
              | _ \<Rightarrow> r2))"

section \<open>Feed walker: backfill\<close>

text \<open>
  \<^verbatim>\<open>FetchAndDownload\<close> (lines 95 to 179). \<open>counted\<close> is what the walker does with the
  answer of a retriever: \<^verbatim>\<open>downloadCount += downloaded\<close>, and an error is printed.
\<close>

definition counted :: "(error \<Rightarrow> msg) \<Rightarrow> int \<Rightarrow> int \<times> error option \<times> world \<Rightarrow> int \<times> world" where
  "counted errorMsg downloadCount r =
     (case r of
        (downloaded, None, w) \<Rightarrow> (downloadCount + downloaded, w)
      | (downloaded, Some err, w) \<Rightarrow> (downloadCount + downloaded, say (errorMsg err) w))"

fun imagesPart :: "env \<Rightarrow> int \<Rightarrow> images_view option \<Rightarrow> int \<times> world \<Rightarrow> int \<times> world" where
  "imagesPart e downloadLimit None (downloadCount, w) = (downloadCount, w)"
| "imagesPart e downloadLimit (Some images) (downloadCount, w) =
     counted MsgErrorImages downloadCount
       (downloadImages e images (downloadLimit - downloadCount) w)"

fun videoPart :: "env \<Rightarrow> int \<Rightarrow> video_view option \<Rightarrow> int \<times> world \<Rightarrow> int \<times> world" where
  "videoPart e downloadLimit None (downloadCount, w) = (downloadCount, w)"
| "videoPart e downloadLimit (Some video) (downloadCount, w) =
     (if downloadCount < downloadLimit
      then counted MsgErrorVideo downloadCount (downloadVideo e video w)
      else (downloadCount, w))"

text \<open>The body of the loop over the posts, after the check of the limit (lines 129 to 167).\<close>

definition processEmbed :: "env \<Rightarrow> int \<Rightarrow> embed_view \<Rightarrow> int \<times> world \<Rightarrow> int \<times> world" where
  "processEmbed e downloadLimit emb cw =
     (let cw1 = imagesPart e downloadLimit (EmbedImages emb) cw;
          cw2 = videoPart e downloadLimit (EmbedVideo emb) cw1
      in case EmbedRecordWithMedia emb of
           None \<Rightarrow> cw2
         | Some rwm \<Rightarrow>
             if fst cw2 < downloadLimit
             then (case rwm of
                     None \<Rightarrow> cw2
                   | Some media \<Rightarrow>
                       videoPart e downloadLimit (MediaVideo media)
                         (imagesPart e downloadLimit (MediaImages media) cw2))
             else cw2)"

text \<open>
  The loop over the posts of one page (lines 113 to 168). The first component of the
  result says that the function returned from inside the loop.
\<close>

fun feedLoop :: "env \<Rightarrow> int \<Rightarrow> post_view list \<Rightarrow> int \<Rightarrow> int \<Rightarrow> world \<Rightarrow> bool \<times> int \<times> int \<times> world" where
  "feedLoop e downloadLimit [] downloadCount postsProcessed w =
     (False, downloadCount, postsProcessed, w)"
| "feedLoop e downloadLimit (post # posts) downloadCount postsProcessed w =
     (if downloadCount \<ge> downloadLimit
      then (True, downloadCount, postsProcessed,
            say (MsgTotal downloadCount) (say (MsgReachedLimit downloadLimit) w))
      else
        let w1 = say (MsgProcessing (postsProcessed + 1) downloadCount downloadLimit)
                   (say MsgRestoreCursor w)
        in case Embed post of
             None \<Rightarrow> feedLoop e downloadLimit posts downloadCount (postsProcessed + 1) w1
           | Some emb \<Rightarrow>
               (case processEmbed e downloadLimit emb (downloadCount, w1) of
                  (c, w2) \<Rightarrow> feedLoop e downloadLimit posts c (postsProcessed + 1) w2))"

text \<open>
  The loop over the pages (lines 101 to 175). The feed decides how many pages there are,
  so the loop need not end: the first argument bounds the number of page requests, and
  \<open>OutOfFuel\<close> is the state of a run that would request one more page.
\<close>

datatype outcome = OutOfFuel | Returned "error option"

fun pageLoop :: "nat \<Rightarrow> env \<Rightarrow> int \<Rightarrow> string \<Rightarrow> int \<Rightarrow> int \<Rightarrow> world \<Rightarrow> outcome \<times> int \<times> world" where
  "pageLoop 0 e downloadLimit cursor downloadCount postsProcessed w =
     (if \<not> downloadCount < downloadLimit
      then (Returned None, downloadCount, say (MsgTotal downloadCount) w)
      else (OutOfFuel, downloadCount, w))"
| "pageLoop (Suc fuel) e downloadLimit cursor downloadCount postsProcessed w =
     (if \<not> downloadCount < downloadLimit
      then (Returned None, downloadCount, say (MsgTotal downloadCount) w)
      else
        let resp = feedGetActorLikes e (calls w) cursor;
            w1 = called (FeedGetActorLikes cursor (resp \<noteq> None)) w
        in case resp of
             None \<Rightarrow> (Returned (Some FailedToFetchLikes), downloadCount, w1)
           | Some out \<Rightarrow>
               if Feed out = [] then (Returned None, downloadCount, say (MsgTotal downloadCount) w1)
               else
                 (case feedLoop e downloadLimit (Feed out) downloadCount postsProcessed w1 of
                    (True, c, pp, w2) \<Rightarrow> (Returned None, c, w2)
                  | (False, c, pp, w2) \<Rightarrow>
                      (case Cursor out of
                         None \<Rightarrow> (Returned None, c, say (MsgTotal c) w2)
                       | Some next \<Rightarrow>
                           if next = [] then (Returned None, c, say (MsgTotal c) w2)
                           else pageLoop fuel e downloadLimit next c pp w2)))"

definition FetchAndDownload :: "nat \<Rightarrow> env \<Rightarrow> int \<Rightarrow> world \<Rightarrow> outcome \<times> int \<times> world" where
  "FetchAndDownload fuel e downloadLimit w =
     pageLoop fuel e downloadLimit [] 0 0 (say MsgSaveCursor w)"

section \<open>Feed walker: watch mode\<close>

text \<open>\<^verbatim>\<open>notify\<close> (lines 34 to 44).\<close>

definition notify :: "env \<Rightarrow> string \<Rightarrow> notification \<Rightarrow> world \<Rightarrow> world" where
  "notify e topic message w =
     (if topic = [] then w
      else
        let ok = ntfyPost e (calls w) topic message;
            w1 = called (NtfyPost topic message ok) w
        in if \<not> ok then say MsgWarnNotify w1 else w1)"


fun watchPost :: "env \<Rightarrow> string \<Rightarrow> post_view \<Rightarrow> string set \<times> world \<Rightarrow> string set \<times> world" where
  "watchPost e ntfyTopic post (seen, w) =
     (if Uri post \<in> seen then (seen, w)
      else
        let w1 = say (MsgNewLike (Uri post)) w in
        case downloadPostMedia e (Embed post) w1 of
          (downloaded, Some err, w2) \<Rightarrow> (insert (Uri post) seen, say (MsgErrorMedia err) w2)
        | (downloaded, None, w2) \<Rightarrow>
            (insert (Uri post) seen,
             if downloaded > 0
             then notify e ntfyTopic (NoteDownloaded downloaded) (say (MsgDownloaded downloaded) w2)
             else w2))"





section \<open>Observations on a run\<close>

text \<open>
  What the history and the output of a run show: the calls that complete a new file, the
  calls of a retrieval that fail, the notifications posted, and the lines that report a
  retrieval error or a new like.
\<close>

fun retrieved :: "call \<Rightarrow> bool" where
  "retrieved (IoCopy filename ok) = ok"
| "retrieved (Ffmpeg playlist filename ok) = ok"
| "retrieved _ = False"

fun failed :: "call \<Rightarrow> bool" where
  "failed (HttpGet url None) = True"
| "failed (HttpGet url (Some status)) = (status \<noteq> 200)"
| "failed (OsCreate filename ok) = (\<not> ok)"
| "failed (IoCopy filename ok) = (\<not> ok)"
| "failed (Ffmpeg playlist filename ok) = (\<not> ok)"
| "failed _ = False"

fun isRetrievalCall :: "call \<Rightarrow> bool" where
  "isRetrievalCall (HttpGet url resp) = True"
| "isRetrievalCall (OsCreate filename ok) = True"
| "isRetrievalCall (IoCopy filename ok) = True"
| "isRetrievalCall (Ffmpeg playlist filename ok) = True"
| "isRetrievalCall _ = False"

fun isNotification :: "call \<Rightarrow> bool" where
  "isNotification (NtfyPost topic message ok) = True"
| "isNotification _ = False"

fun isErrorLine :: "msg \<Rightarrow> bool" where
  "isErrorLine (MsgErrorImages err) = True"
| "isErrorLine (MsgErrorVideo err) = True"
| "isErrorLine (MsgErrorMedia err) = True"
| "isErrorLine _ = False"

fun isNewLike :: "msg \<Rightarrow> bool" where
  "isNewLike (MsgNewLike uri) = True"
| "isNewLike _ = False"

definition newFiles :: "world \<Rightarrow> int" where
  "newFiles w = int (length (filter retrieved (calls w)))"

definition failures :: "world \<Rightarrow> int" where
  "failures w = int (length (filter failed (calls w)))"

definition errorLines :: "world \<Rightarrow> int" where
  "errorLines w = int (length (filter isErrorLine (stdout w)))"

definition newLikes :: "world \<Rightarrow> msg list" where
  "newLikes w = filter isNewLike (stdout w)"

definition notifications :: "world \<Rightarrow> call list" where
  "notifications w = filter isNotification (calls w)"

text \<open>
  Go's \<^verbatim>\<open>range\<close> over a map visits every key once, in an order of its own choosing.
\<close>

definition rangeVisitsEachKeyOnce :: "env \<Rightarrow> bool" where
  "rangeVisitsEachKeyOnce e = (\<forall>h ks. mset (rangeOrder e h ks) = mset ks)"

text \<open>A Go map has every key once.\<close>

definition wellFormed :: "world \<Rightarrow> bool" where
  "wellFormed w = distinct (keys w)"

text \<open>The operations of the content cache, for runs of them in any order.\<close>

datatype cache_op = Load | Reconcile | ContainsName string | Record string

fun applyOp :: "env \<Rightarrow> cache_op \<Rightarrow> world \<Rightarrow> world" where
  "applyOp e Load w = snd (loadCache e w)"
| "applyOp e Reconcile w = snd (syncCacheFromDirectory e w)"
| "applyOp e (ContainsName filename) w = w"
| "applyOp e (Record filename) w = snd (markDownloaded e filename w)"

definition runOps :: "env \<Rightarrow> cache_op list \<Rightarrow> world \<Rightarrow> world" where
  "runOps e ops w = fold (applyOp e) ops w"

section \<open>The extension as the specification words it\<close>

text \<open>
  The specification resolves the extension from ``the URL path''. \<open>urlPath\<close> is the path
  of a URL as RFC 3986 has it: what follows the scheme and the authority, up to the query
  (\<^verbatim>\<open>?\<close>) or the fragment (\<^verbatim>\<open>#\<close>). \<open>specExt\<close> is the rule of the specification, read with
  that path; it is compared with \<open>resolveExt\<close>, which is the code.
\<close>

fun afterScheme :: "string \<Rightarrow> string option" where
  "afterScheme (a # b # c # cs) =
     (if a = CHR '':'' \<and> b = CHR ''/'' \<and> c = CHR ''/'' then Some cs
      else afterScheme (b # c # cs))"
| "afterScheme _ = None"

definition urlPath :: "string \<Rightarrow> string" where
  "urlPath url =
     (let u = takeWhile (\<lambda>c. c \<noteq> CHR ''?'') (takeWhile (\<lambda>c. c \<noteq> CHR ''#'') url) in
      case afterScheme u of
        None \<Rightarrow> u
      | Some rest \<Rightarrow> dropWhile (\<lambda>c. c \<noteq> CHR ''/'') rest)"

definition specExt :: "string \<Rightarrow> string \<Rightarrow> string" where
  "specExt url mediaType =
     (if Ext (urlPath url) \<noteq> [] then Ext (urlPath url)
      else if Contains url ''m3u8'' then ''.m3u8''
      else if mediaType = ''image'' then ''.png''
      else ''.mp4'')"

section \<open>The extension, described\<close>

text \<open>
  What \<^verbatim>\<open>filepath.Ext\<close> returns, without the loop: the last segment of a path is what
  follows its last \<^verbatim>\<open>/\<close>, and the extension is that segment from its last dot on.
  \<open>extRev\<close> is the loop of \<open>extFrom\<close> on the reversed prefix still to be read.
\<close>

definition lastSegment :: "string \<Rightarrow> string" where
  "lastSegment path = rev (takeWhile (\<lambda>c. c \<noteq> CHR ''/'') (rev path))"

definition fromLastDot :: "string \<Rightarrow> string" where
  "fromLastDot seg =
     (if CHR ''.'' \<in> set seg
      then CHR ''.'' # rev (takeWhile (\<lambda>c. c \<noteq> CHR ''.'') (rev seg))
      else [])"

fun extRev :: "string \<Rightarrow> string \<Rightarrow> string" where
  "extRev [] suf = []"
| "extRev (c # r) suf =
     (if c = CHR ''/'' then [] else if c = CHR ''.'' then c # suf else extRev r (c # suf))"

section \<open>The names of a persisted listing\<close>

text \<open>The file names \<^verbatim>\<open>loadCache\<close> reads from a listing: its lines, trimmed, the empty ones left out.\<close>

definition listed :: "string option \<Rightarrow> string list" where
  "listed file =
     (case file of
        None \<Rightarrow> []
      | Some content \<Rightarrow> filter (\<lambda>filename. filename \<noteq> []) (map TrimSpace (scanLines content)))"

section \<open>Steps of a run\<close>

text \<open>
  The step of a backfill from a count and a state to a later count and state: the count
  does not fall and stays within the limit, it grows by the number of new files completed,
  and every failed retrieval has its error line.
\<close>

definition accounted :: "int \<Rightarrow> int \<times> world \<Rightarrow> int \<times> world \<Rightarrow> bool" where
  "accounted limit cw cw' =
     (fst cw \<le> fst cw' \<and>
      (fst cw \<le> limit \<longrightarrow> fst cw' \<le> limit) \<and>
      newFiles (snd cw') - newFiles (snd cw) = fst cw' - fst cw \<and>
      errorLines (snd cw') - errorLines (snd cw) = failures (snd cw') - failures (snd cw))"

text \<open>
  What a retriever may add to a run: calls of retrievals and of saves of the listing, and
  lines that do not announce a new like.
\<close>

fun isCacheWrite :: "call \<Rightarrow> bool" where
  "isCacheWrite (CreateCacheFile ok) = True"
| "isCacheWrite (WriteCacheFile ok) = True"
| "isCacheWrite _ = False"

definition retrieverStep :: "world \<Rightarrow> world \<Rightarrow> bool" where
  "retrieverStep w w' =
     (\<exists>cs ms. calls w' = calls w @ cs \<and> (\<forall>c \<in> set cs. isRetrievalCall c \<or> isCacheWrite c) \<and>
              stdout w' = stdout w @ ms \<and> (\<forall>m \<in> set ms. \<not> isNewLike m))"

text \<open>A media URL was attempted when the history has a request for it.\<close>

fun requests :: "string \<Rightarrow> call \<Rightarrow> bool" where
  "requests url (HttpGet u resp) = (u = url)"
| "requests url (Ffmpeg playlist filename ok) = (playlist = url)"
| "requests url _ = False"

definition attempted :: "world \<Rightarrow> string \<Rightarrow> bool" where
  "attempted w url = list_ex (requests url) (calls w)"

text \<open>
  The identifiers of a page that a poll finds new, given the set seen so far: each one
  at its first place in the page.
\<close>

fun novel :: "string set \<Rightarrow> string list \<Rightarrow> string list" where
  "novel seen [] = []"
| "novel seen (uri # uris) =
     (if uri \<in> seen then novel seen uris else uri # novel (insert uri seen) uris)"



section \<open>The media references of an item\<close>








section \<open>Example runs\<close>

text \<open>
  An environment for the examples: the hash is a stand-in (the theorems hold for every
  hash), a request for one of the URLs \<open>bad\<close> is answered with status 404, every other
  call succeeds, and the feed is the function \<open>feed\<close> of the cursor.
\<close>

definition exampleEnv :: "string list \<Rightarrow> (string \<Rightarrow> likes_output option) \<Rightarrow> env" where
  "exampleEnv bad feed =
     \<lparr> sha256hex = (\<lambda>url. ''k-'' @ url),
       rangeOrder = (\<lambda>h ks. rev ks),
       mkdirAll = (\<lambda>h. True),
       createSession = (\<lambda>h. True),
       openCache = (\<lambda>h. True),
       scanCache = (\<lambda>h. ScanOk),
       createCache = (\<lambda>h. True),
       writeCache = (\<lambda>h. WriteOk),
       readDir = (\<lambda>h. True),
       feedGetActorLikes = (\<lambda>h. feed),
       httpGet = (\<lambda>h url. if url \<in> set bad then Some 404 else Some 200),
       osCreate = (\<lambda>h filename. True),
       ioCopy = (\<lambda>h filename. True),
       runFfmpeg = (\<lambda>h playlist. ExitZero),
       ntfyPost = (\<lambda>h topic message. True) \<rparr>"

definition emptyWorld :: world where
  "emptyWorld = \<lparr> downloadedFiles = [], cacheFile = None, storage = [], calls = [], stdout = [] \<rparr>"

definition imagePost :: "string \<Rightarrow> string list \<Rightarrow> post_view" where
  "imagePost uri urls =
     \<lparr> Uri = uri,
       Embed = Some \<lparr> EmbedImages = Some urls, EmbedVideo = None, EmbedRecordWithMedia = None \<rparr> \<rparr>"

definition onePage :: "post_view list \<Rightarrow> string \<Rightarrow> likes_output option" where
  "onePage posts cursor = (if cursor = [] then Some \<lparr> Feed = posts, Cursor = None \<rparr> else None)"

definition strayWorld :: world where
  "strayWorld = emptyWorld\<lparr>storage := [(''abc123.png'', False), (''sub'', True)]\<rparr>"

definition cachedWorld :: world where
  "cachedWorld =
     emptyWorld\<lparr>downloadedFiles :=
       [(''k-https://cdn.example/img/one.png'', True), (''k-https://video.example/v.mp4'', True)]\<rparr>"

definition twoPosts :: "post_view list" where
  "twoPosts = [imagePost ''p1'' [''a'', ''b''], imagePost ''p2'' [''c'', ''d'']]"

text \<open>
  Posts with an image and a video, and the two pages of the example of watch mode.
\<close>

definition mediaPost :: "string \<Rightarrow> string \<Rightarrow> string \<Rightarrow> post_view" where
  "mediaPost uri picture clip =
     \<lparr> Uri = uri,
       Embed = Some \<lparr> EmbedImages = Some [picture], EmbedVideo = Some clip,
                      EmbedRecordWithMedia = None \<rparr> \<rparr>"

definition likedBefore :: "post_view list" where
  "likedBefore =
     [mediaPost ''a'' ''ia'' ''va'', mediaPost ''b'' ''ib'' ''vb'', mediaPost ''c'' ''ic'' ''vc'']"

definition likedNow :: "post_view list" where
  "likedNow =
     [mediaPost ''b'' ''ib'' ''vb'', mediaPost ''c'' ''ic'' ''vc'', mediaPost ''d'' ''id'' ''vd'']"













text \<open>
  The feed of the example of watch mode: the first request of a run is answered with the
  page \<open>likedBefore\<close>, every later one with \<open>likedNow\<close>. \<open>seededWorld\<close> is the state of
  \<^verbatim>\<open>WatchLikes\<close> after the seed, \<open>polledWorld\<close> the state after the first poll.
\<close>

definition pollEnv :: env where
  "pollEnv =
     (exampleEnv [] (onePage []))
       \<lparr>feedGetActorLikes :=
          (\<lambda>h cursor. Some \<lparr> Feed = (if h = [] then likedBefore else likedNow), Cursor = None \<rparr>)\<rparr>"



section \<open>Basic facts\<close>

lemma say_fields [simp]:
  "downloadedFiles (say m w) = downloadedFiles w"
  "cacheFile (say m w) = cacheFile w"
  "storage (say m w) = storage w"
  "calls (say m w) = calls w"
  "stdout (say m w) = stdout w @ [m]"
  by (simp_all add: say_def)

lemma called_fields [simp]:
  "downloadedFiles (called c w) = downloadedFiles w"
  "cacheFile (called c w) = cacheFile w"
  "storage (called c w) = storage w"
  "calls (called c w) = calls w @ [c]"
  "stdout (called c w) = stdout w"
  by (simp_all add: called_def)

lemma isDownloaded_say [simp]: "isDownloaded (say m w) f = isDownloaded w f"
  by (simp add: isDownloaded_def)

lemma isDownloaded_called [simp]: "isDownloaded (called c w) f = isDownloaded w f"
  by (simp add: isDownloaded_def)

lemma keys_say [simp]: "keys (say m w) = keys w"
  by (simp add: keys_def)

lemma keys_called [simp]: "keys (called c w) = keys w"
  by (simp add: keys_def)

section \<open>Cache hit\<close>

text \<open>
  Claim C2. When the file name of a media reference is already in the in-memory cache,
  \<open>downloadFile\<close> and \<open>downloadVideo\<close> return the count 0 and no error, make no call at
  all (so no network request and no subprocess), and leave the in-memory cache, the
  persisted listing and the storage as they were.
\<close>

theorem cache_hit_short_circuit:
  "(isDownloaded w (resolveFilename e url mediaType) \<longrightarrow>
      (case downloadFile e url mediaType w of (n, err, w') \<Rightarrow>
         n = 0 \<and> err = None \<and> calls w' = calls w \<and> downloadedFiles w' = downloadedFiles w \<and>
         cacheFile w' = cacheFile w \<and> storage w' = storage w)) \<and>
   (isDownloaded w (sha256hex e playlist @ ''.mp4'') \<longrightarrow>
      (case downloadVideo e playlist w of (n, err, w') \<Rightarrow>
         n = 0 \<and> err = None \<and> calls w' = calls w \<and> downloadedFiles w' = downloadedFiles w \<and>
         cacheFile w' = cacheFile w \<and> storage w' = storage w))"
  by (simp add: downloadFile_def downloadVideo_def)

lemma example_filename:
  "resolveFilename (exampleEnv [] (onePage [])) ''https://cdn.example/img/one'' ''image'' =
     ''k-https://cdn.example/img/one.png''"
  by (simp add: resolveFilename_def resolveExt_def Ext_def exampleEnv_def)

theorem cache_hit_short_circuit_witness:
  "isDownloaded cachedWorld
     (resolveFilename (exampleEnv [] (onePage [])) ''https://cdn.example/img/one'' ''image'') \<and>
   (case downloadFile (exampleEnv [] (onePage [])) ''https://cdn.example/img/one'' ''image'' cachedWorld
    of (n, err, w') \<Rightarrow>
         n = 0 \<and> err = None \<and> calls w' = calls cachedWorld \<and>
         downloadedFiles w' = downloadedFiles cachedWorld \<and>
         cacheFile w' = cacheFile cachedWorld \<and> storage w' = storage cachedWorld) \<and>
   isDownloaded cachedWorld
     (sha256hex (exampleEnv [] (onePage [])) ''https://video.example/v'' @ ''.mp4'') \<and>
   (case downloadVideo (exampleEnv [] (onePage [])) ''https://video.example/v'' cachedWorld
    of (n, err, w') \<Rightarrow>
         n = 0 \<and> err = None \<and> calls w' = calls cachedWorld \<and>
         downloadedFiles w' = downloadedFiles cachedWorld \<and>
         cacheFile w' = cacheFile cachedWorld \<and> storage w' = storage cachedWorld)"
proof -
  have a: "isDownloaded cachedWorld
     (resolveFilename (exampleEnv [] (onePage [])) ''https://cdn.example/img/one'' ''image'')"
    by (simp add: example_filename isDownloaded_def cachedWorld_def emptyWorld_def lookup_def)
  have b: "isDownloaded cachedWorld
     (sha256hex (exampleEnv [] (onePage [])) ''https://video.example/v'' @ ''.mp4'')"
    by (simp add: exampleEnv_def isDownloaded_def cachedWorld_def emptyWorld_def lookup_def)
  show ?thesis
    using a b
      cache_hit_short_circuit [of cachedWorld "exampleEnv [] (onePage [])"
        "''https://cdn.example/img/one''" "''image''" "''https://video.example/v''"]
    by simp
qed

section \<open>The file name of a direct fetch\<close>

lemma extFrom_extRev:
  "n \<le> length path \<Longrightarrow> extFrom path n = extRev (rev (take n path)) (drop n path)"
proof (induction n)
  case 0
  then show ?case by simp
next
  case (Suc i)
  then have i: "i < length path" by simp
  have t: "rev (take (Suc i) path) = path ! i # rev (take i path)"
    using i by (simp add: take_Suc_conv_app_nth)
  have d: "drop i path = path ! i # drop (Suc i) path"
    using i by (simp add: Cons_nth_drop_Suc)
  show ?case using Suc i by (simp add: t d)
qed

lemma extRev_takeWhile:
  "extRev r suf =
     (if CHR ''.'' \<in> set (takeWhile (\<lambda>c. c \<noteq> CHR ''/'') r)
      then CHR ''.'' #
           rev (takeWhile (\<lambda>c. c \<noteq> CHR ''.'') (takeWhile (\<lambda>c. c \<noteq> CHR ''/'') r)) @ suf
      else [])"
  by (induction r arbitrary: suf) auto

lemma Ext_lastSegment: "Ext path = fromLastDot (lastSegment path)"
  by (simp add: Ext_def extFrom_extRev extRev_takeWhile fromLastDot_def lastSegment_def)

lemma Contains_iff: "Contains s substr \<longleftrightarrow> (\<exists>p q. s = p @ substr @ q)"
proof (induction s)
  case Nil
  then show ?case by auto
next
  case (Cons c cs)
  show ?case
  proof
    assume "Contains (c # cs) substr"
    then consider "take (length substr) (c # cs) = substr" | "Contains cs substr" by auto
    then show "\<exists>p q. c # cs = p @ substr @ q"
    proof cases
      case 1
      then have "c # cs = [] @ substr @ drop (length substr) (c # cs)"
        by (metis append_Nil append_take_drop_id)
      then show ?thesis by blast
    next
      case 2
      then obtain p q where "cs = p @ substr @ q" using Cons.IH by blast
      then have "c # cs = (c # p) @ substr @ q" by simp
      then show ?thesis by blast
    qed
  next
    assume "\<exists>p q. c # cs = p @ substr @ q"
    then obtain p q where pq: "c # cs = p @ substr @ q" by blast
    show "Contains (c # cs) substr"
    proof (cases p)
      case Nil
      then have "take (length substr) (c # cs) = substr" using pq by simp
      then show ?thesis by simp
    next
      case (Cons a p')
      then have "cs = p' @ substr @ q" using pq by simp
      then have "Contains cs substr" using Cons.IH by blast
      then show ?thesis by simp
    qed
  qed
qed

text \<open>
  Claim C5, as stated, fails: the extension is not taken from the path of the URL. For
  \<^verbatim>\<open>https://cdn.example/a.png?v=1\<close> the path is \<^verbatim>\<open>/a.png\<close> and its extension \<^verbatim>\<open>.png\<close>,
  but the code reads the whole URL as a file path and resolves \<^verbatim>\<open>.png?v=1\<close>; for
  \<^verbatim>\<open>https://example.com\<close> the path is empty, and the code resolves \<^verbatim>\<open>.com\<close>.
\<close>

theorem extension_not_from_url_path:
  "resolveExt ''https://cdn.example/a.png?v=1'' ''image'' = ''.png?v=1'' \<and>
   specExt ''https://cdn.example/a.png?v=1'' ''image'' = ''.png'' \<and>
   resolveExt ''https://example.com'' ''image'' = ''.com'' \<and>
   specExt ''https://example.com'' ''image'' = ''.png''"
  by (simp add: resolveExt_def specExt_def Ext_def urlPath_def)

text \<open>
  Claim C5, amended. The file name of \<open>downloadFile\<close> is the hash of the URL followed by
  the extension, and the extension is resolved on the whole URL string: when what follows
  the last \<^verbatim>\<open>/\<close> of the URL has a dot, it is that segment from its last dot on (a query
  string or a fragment is part of it); otherwise it is \<^verbatim>\<open>.m3u8\<close> when the URL contains
  \<^verbatim>\<open>m3u8\<close>, otherwise \<^verbatim>\<open>.png\<close> for the kind \<^verbatim>\<open>image\<close> and \<^verbatim>\<open>.mp4\<close> for any other kind.
\<close>

theorem resolved_filename:
  "resolveFilename e url mediaType =
     sha256hex e url @
       (if CHR ''.'' \<in> set (lastSegment url) then fromLastDot (lastSegment url)
        else if (\<exists>p q. url = p @ ''m3u8'' @ q) then ''.m3u8''
        else if mediaType = ''image'' then ''.png''
        else ''.mp4'')"
  by (simp add: resolveFilename_def resolveExt_def Ext_lastSegment Contains_iff
      fromLastDot_def Let_def)

section \<open>A budget of zero or less\<close>

text \<open>
  Claim C10. With a download limit of zero or less, \<open>FetchAndDownload\<close> returns at once
  with no error, whatever the bound on the page requests: it only prints; it requests no
  page of the feed, retrieves nothing, and the cache and the storage stay as they were.
\<close>

theorem fetch_nothing_without_budget:
  "downloadLimit \<le> 0 \<Longrightarrow>
   FetchAndDownload fuel e downloadLimit w =
     (Returned None, 0, say (MsgTotal 0) (say MsgSaveCursor w)) \<and>
   calls (snd (snd (FetchAndDownload fuel e downloadLimit w))) = calls w \<and>
   downloadedFiles (snd (snd (FetchAndDownload fuel e downloadLimit w))) = downloadedFiles w \<and>
   cacheFile (snd (snd (FetchAndDownload fuel e downloadLimit w))) = cacheFile w \<and>
   storage (snd (snd (FetchAndDownload fuel e downloadLimit w))) = storage w"
  by (cases fuel) (simp_all add: FetchAndDownload_def)

theorem fetch_nothing_without_budget_witness:
  "(-1 :: int) \<le> 0 \<and>
   FetchAndDownload 0 (exampleEnv [] (onePage [imagePost ''p1'' [''a'']])) (-1) emptyWorld =
     (Returned None, 0, say (MsgTotal 0) (say MsgSaveCursor emptyWorld)) \<and>
   calls (snd (snd (FetchAndDownload 0 (exampleEnv [] (onePage [imagePost ''p1'' [''a'']])) (-1)
     emptyWorld))) = []"
  using fetch_nothing_without_budget
    [of "-1" 0 "exampleEnv [] (onePage [imagePost ''p1'' [''a'']])" emptyWorld]
  by (simp add: emptyWorld_def)

section \<open>The content cache only grows\<close>

lemma lookup_update [simp]: "lookup (AList.update k True m) f = (f = k \<or> lookup m f)"
  by (simp add: lookup_def update_conv')

lemma loadLines_lookup:
  "loadLines ls m c = (m', c') \<Longrightarrow>
   lookup m' f = (lookup m f \<or> f \<in> set (filter (\<lambda>x. x \<noteq> []) (map TrimSpace ls)))"
  by (induction ls arbitrary: m c) (auto simp: Let_def split: if_splits)

lemma loadLines_keys:
  "loadLines ls m c = (m', c') \<Longrightarrow>
   set (map fst m') = set (map fst m) \<union> set (filter (\<lambda>x. x \<noteq> []) (map TrimSpace ls))"
proof (induction ls arbitrary: m c)
  case Nil
  then show ?case by simp
next
  case (Cons l ls)
  show ?case
  proof (cases "TrimSpace l = []")
    case True
    then show ?thesis using Cons by simp
  next
    case False
    then have "loadLines ls (AList.update (TrimSpace l) True m) (c + 1) = (m', c')"
      using Cons.prems by simp
    from Cons.IH [OF this] show ?thesis using False by (simp add: dom_update)
  qed
qed

lemma loadLines_distinct:
  "loadLines ls m c = (m', c') \<Longrightarrow> distinct (map fst m) \<Longrightarrow> distinct (map fst m')"
  by (induction ls arbitrary: m c) (auto simp: Let_def distinct_update split: if_splits)

lemma syncEntries_lookup:
  "syncEntries es m a = (m', a') \<Longrightarrow>
   lookup m' f = (lookup m f \<or> (f, False) \<in> set es)"
  by (induction es m a rule: syncEntries.induct) (auto split: if_splits)

lemma syncEntries_keys:
  "syncEntries es m a = (m', a') \<Longrightarrow>
   set (map fst m) \<subseteq> set (map fst m') \<and>
   set (map fst m') \<subseteq> set (map fst m) \<union> {f. (f, False) \<in> set es}"
proof (induction es arbitrary: m a)
  case Nil
  then show ?case by simp
next
  case (Cons entry es)
  obtain filename isDir where entry: "entry = (filename, isDir)" by (cases entry)
  show ?case
  proof (cases "\<not> isDir \<and> \<not> lookup m filename")
    case True
    then have "syncEntries es (AList.update filename True m) (a + 1) = (m', a')"
      using Cons.prems entry by simp
    from Cons.IH [OF this] have
      "insert filename (set (map fst m)) \<subseteq> set (map fst m')"
      "set (map fst m') \<subseteq> insert filename (set (map fst m)) \<union> {f. (f, False) \<in> set es}"
      by (simp_all add: dom_update)
    then show ?thesis using True entry by auto
  next
    case False
    then have "syncEntries es m a = (m', a')"
      using Cons.prems entry by (simp split: if_splits)
    from Cons.IH [OF this] show ?thesis by auto
  qed
qed

lemma syncEntries_distinct:
  "syncEntries es m a = (m', a') \<Longrightarrow> distinct (map fst m) \<Longrightarrow> distinct (map fst m')"
  by (induction es m a rule: syncEntries.induct) (auto simp: distinct_update split: if_splits)

lemma syncEntries_added:
  "syncEntries es m a = (m', a') \<Longrightarrow>
   a \<le> a' \<and> (a < a' \<longleftrightarrow> (\<exists>f. (f, False) \<in> set es \<and> \<not> lookup m f)) \<and> (a' = a \<longrightarrow> m' = m)"
proof (induction es arbitrary: m a)
  case Nil
  then show ?case by simp
next
  case (Cons entry es)
  obtain filename isDir where entry: "entry = (filename, isDir)" by (cases entry)
  show ?case
  proof (cases "\<not> isDir \<and> \<not> lookup m filename")
    case True
    then have "syncEntries es (AList.update filename True m) (a + 1) = (m', a')"
      using Cons.prems entry by simp
    from Cons.IH [OF this] have "a + 1 \<le> a'" by simp
    then show ?thesis using True entry by auto
  next
    case False
    then have "syncEntries es m a = (m', a')"
      using Cons.prems entry by (simp split: if_splits)
    from Cons.IH [OF this] show ?thesis using False entry by auto
  qed
qed

lemma saveCache_downloadedFiles [simp]: "downloadedFiles (snd (saveCache e w)) = downloadedFiles w"
  by (simp add: saveCache_def Let_def split: write_result.splits)

lemma saveCache_ok:
  "saveCache e w = (None, w') \<Longrightarrow>
   cacheFile w' = Some (listing (rangeOrder e (calls w @ [CreateCacheFile True]) (keys w))) \<and>
   downloadedFiles w' = downloadedFiles w \<and> storage w' = storage w \<and>
   calls w' = calls w @ [CreateCacheFile True, WriteCacheFile True] \<and> stdout w' = stdout w"
  by (auto simp: saveCache_def Let_def split: write_result.splits if_splits)

lemma saveCache_result_files:
  "saveCache e w = (r, w') \<Longrightarrow> downloadedFiles w' = downloadedFiles w"
  using saveCache_downloadedFiles [of e w] by simp

lemma isDownloaded_saveCache [simp]: "isDownloaded (snd (saveCache e w)) f = isDownloaded w f"
  by (simp add: isDownloaded_def)

lemma isDownloaded_markDownloaded:
  "isDownloaded (snd (markDownloaded e k w)) f = (f = k \<or> isDownloaded w f)"
  by (simp add: markDownloaded_def) (simp add: isDownloaded_def)

lemma isDownloaded_loadCache:
  "isDownloaded w f \<Longrightarrow> isDownloaded (snd (loadCache e w)) f"
  by (auto simp: loadCache_def Let_def isDownloaded_def loadLines_lookup
      split: option.splits scan_result.splits prod.splits)

lemma isDownloaded_sync:
  "isDownloaded w f \<Longrightarrow> isDownloaded (snd (syncCacheFromDirectory e w)) f"
proof -
  assume a: "isDownloaded w f"
  obtain m added where s: "syncEntries (storage w) (downloadedFiles w) 0 = (m, added)"
    by (cases "syncEntries (storage w) (downloadedFiles w) 0")
  have l: "lookup m f" using syncEntries_lookup [OF s] a by (simp add: isDownloaded_def)
  show ?thesis
    using a l s
    by (auto simp: syncCacheFromDirectory_def Let_def isDownloaded_def
        split: prod.splits option.splits dest!: saveCache_result_files)
qed

lemma isDownloaded_applyOp: "isDownloaded w f \<Longrightarrow> isDownloaded (applyOp e op w) f"
  by (cases op) (simp_all add: isDownloaded_loadCache isDownloaded_sync isDownloaded_markDownloaded)

lemma keys_update: "set (keys (w\<lparr>downloadedFiles := AList.update k v (downloadedFiles w)\<rparr>)) = insert k (set (keys w))"
  by (simp add: keys_def dom_update)

lemma keys_saveCache [simp]: "keys (snd (saveCache e w)) = keys w"
  by (simp add: keys_def)

lemma keys_markDownloaded: "set (keys (snd (markDownloaded e k w))) = insert k (set (keys w))"
  by (simp add: markDownloaded_def keys_update)

lemma loadLines_keys_mono:
  "loadLines ls m c = (m', c') \<Longrightarrow> fst ` set m \<subseteq> fst ` set m'"
  using loadLines_keys [of ls m c m' c'] by auto

lemma keys_loadCache: "set (keys w) \<subseteq> set (keys (snd (loadCache e w)))"
proof (cases "cacheFile w")
  case None
  then show ?thesis by (simp add: loadCache_def)
next
  case (Some content)
  obtain m c where a: "loadLines (scanLines content) (downloadedFiles w) 0 = (m, c)"
    by (cases "loadLines (scanLines content) (downloadedFiles w) 0")
  have b: "\<And>n. \<exists>m c. loadLines (take n (scanLines content)) (downloadedFiles w) 0 = (m, c) \<and>
      fst ` set (downloadedFiles w) \<subseteq> fst ` set m"
  proof -
    fix n
    obtain m c where x: "loadLines (take n (scanLines content)) (downloadedFiles w) 0 = (m, c)"
      by (cases "loadLines (take n (scanLines content)) (downloadedFiles w) 0")
    then show "\<exists>m c. loadLines (take n (scanLines content)) (downloadedFiles w) 0 = (m, c) \<and>
      fst ` set (downloadedFiles w) \<subseteq> fst ` set m"
      using loadLines_keys_mono [OF x] by blast
  qed
  show ?thesis
  proof (cases "scanCache e (calls w @ [OpenCacheFile True])")
    case ScanOk
    then show ?thesis
      using Some a loadLines_keys_mono [OF a] by (simp add: loadCache_def Let_def keys_def)
  next
    case (ScanFailsAfter n)
    obtain m c where "loadLines (take n (scanLines content)) (downloadedFiles w) 0 = (m, c)"
      and "fst ` set (downloadedFiles w) \<subseteq> fst ` set m"
      using b [of n] by blast
    then show ?thesis
      using Some ScanFailsAfter by (simp add: loadCache_def Let_def keys_def)
  qed
qed

lemma keys_sync: "set (keys w) \<subseteq> set (keys (snd (syncCacheFromDirectory e w)))"
proof -
  obtain m added where s: "syncEntries (storage w) (downloadedFiles w) 0 = (m, added)"
    by (cases "syncEntries (storage w) (downloadedFiles w) 0")
  have "fst ` set (downloadedFiles w) \<subseteq> fst ` set m"
    using syncEntries_keys [OF s] by simp
  moreover have "\<And>v. downloadedFiles (snd (saveCache e v)) = downloadedFiles v"
    by simp
  ultimately show ?thesis
    using s
    by (simp add: syncCacheFromDirectory_def Let_def keys_def split_beta
        split: prod.splits option.splits)
qed

lemma keys_applyOp: "set (keys w) \<subseteq> set (keys (applyOp e op w))"
  using keys_loadCache [of w e] keys_sync [of w e]
  by (cases op) (auto simp: keys_markDownloaded)

lemma runOps_snoc: "runOps e (ops @ [op]) w = applyOp e op (runOps e ops w)"
  by (simp add: runOps_def)

text \<open>
  Claim C8. In a run of cache operations (load, reconcile, contains, record) in any
  order, with any answers of the file system, no later operation removes a key of the
  in-memory map, and a file name for which \<open>isDownloaded\<close> is true stays so.
\<close>

theorem cache_monotone:
  "set (keys (runOps e ops w)) \<subseteq> set (keys (runOps e (ops @ later) w)) \<and>
   (isDownloaded (runOps e ops w) f \<longrightarrow> isDownloaded (runOps e (ops @ later) w) f)"
proof (induction later rule: rev_induct)
  case Nil
  then show ?case by simp
next
  case (snoc op later)
  have r: "runOps e (ops @ later @ [op]) w = applyOp e op (runOps e (ops @ later) w)"
    using runOps_snoc [of e "ops @ later" op w] by simp
  have "set (keys (runOps e (ops @ later) w)) \<subseteq> set (keys (runOps e (ops @ later @ [op]) w))"
    unfolding r by (rule keys_applyOp)
  then show ?case
    using snoc isDownloaded_applyOp [of "runOps e (ops @ later) w" f e op]
    unfolding r by blast
qed

lemma example_record:
  "isDownloaded (runOps (exampleEnv [] (onePage [])) [Record ''a.png''] emptyWorld) ''a.png''"
  by (simp add: runOps_def isDownloaded_markDownloaded)

theorem cache_monotone_witness:
  "isDownloaded (runOps (exampleEnv [] (onePage [])) [Record ''a.png''] emptyWorld) ''a.png'' \<and>
   isDownloaded
     (runOps (exampleEnv [] (onePage []))
        ([Record ''a.png''] @ [Load, Reconcile, ContainsName ''a.png'', Record ''b.png''])
        emptyWorld) ''a.png''"
  using example_record
    cache_monotone [of "exampleEnv [] (onePage [])" "[Record ''a.png'']" emptyWorld
      "[Load, Reconcile, ContainsName ''a.png'', Record ''b.png'']" "''a.png''"]
  by blast

section \<open>The persisted listing\<close>

lemma rangeOrder_distinct:
  "rangeVisitsEachKeyOnce e \<Longrightarrow> distinct ks \<Longrightarrow> distinct (rangeOrder e h ks)"
  unfolding rangeVisitsEachKeyOnce_def by (metis mset_eq_imp_distinct_iff)

lemma rangeOrder_set: "rangeVisitsEachKeyOnce e \<Longrightarrow> set (rangeOrder e h ks) = set ks"
  unfolding rangeVisitsEachKeyOnce_def by (metis mset_eq_setD)

lemma scanFrom_line:
  "newline \<notin> set k \<Longrightarrow> scanFrom cur (k @ newline # rest) = dropCR (cur @ k) # scanFrom [] rest"
  by (induction k arbitrary: cur) auto

lemma scanLines_listing:
  "\<forall>k \<in> set ks. newline \<notin> set k \<Longrightarrow> scanLines (listing ks) = map dropCR ks"
proof (induction ks)
  case Nil
  then show ?case by (simp add: scanLines_def listing_def)
next
  case (Cons k ks)
  then have "scanFrom [] (k @ newline # listing ks) = dropCR k # scanFrom [] (listing ks)"
    using scanFrom_line [of k "[]" "listing ks"] by simp
  then show ?case using Cons by (simp add: scanLines_def listing_def)
qed

lemma wellFormed_update:
  "wellFormed w \<Longrightarrow> wellFormed (w\<lparr>downloadedFiles := AList.update k v (downloadedFiles w)\<rparr>)"
  by (simp add: wellFormed_def keys_def distinct_update)

lemma saveCache_listing:
  assumes "fst (saveCache e w) = None" and "rangeVisitsEachKeyOnce e" and "wellFormed w"
  shows "\<exists>ks. cacheFile (snd (saveCache e w)) = Some (listing ks) \<and> distinct ks \<and>
               set ks = set (keys w)"
proof -
  obtain w' where s: "saveCache e w = (None, w')"
    using assms(1) by (cases "saveCache e w") simp
  let ?ks = "rangeOrder e (calls w @ [CreateCacheFile True]) (keys w)"
  have "cacheFile w' = Some (listing ?ks)" using saveCache_ok [OF s] by simp
  moreover have "distinct ?ks"
    using assms(2,3) by (simp add: rangeOrder_distinct wellFormed_def)
  moreover have "set ?ks = set (keys w)" using assms(2) by (rule rangeOrder_set)
  ultimately show ?thesis using s by auto
qed

text \<open>
  Claim C9. After a \<open>markDownloaded\<close> whose save succeeds, the persisted listing is
  written anew from the in-memory map, whatever the file held before: it is one line
  (the name and a newline) for each key of the map, each key once, and the keys are those
  of before and the new name. Read back line by line, the listing gives these names when
  no name has a line break in it.
\<close>

theorem listing_agrees_after_mark:
  assumes "fst (markDownloaded e filename w) = None"
    and "rangeVisitsEachKeyOnce e"
    and "wellFormed w"
  shows "\<exists>ks. cacheFile (snd (markDownloaded e filename w)) = Some (listing ks) \<and>
              distinct ks \<and>
              set ks = set (keys (snd (markDownloaded e filename w))) \<and>
              set ks = insert filename (set (keys w)) \<and>
              ((\<forall>k \<in> set ks. newline \<notin> set k \<and> dropCR k = k) \<longrightarrow>
                 scanLines (listing ks) = ks)"
proof -
  let ?v = "w\<lparr>downloadedFiles := AList.update filename True (downloadedFiles w)\<rparr>"
  have m: "markDownloaded e filename w = saveCache e ?v" by (simp add: markDownloaded_def)
  have "wellFormed ?v" using assms(3) by (rule wellFormed_update)
  then obtain ks where ks: "cacheFile (snd (saveCache e ?v)) = Some (listing ks)"
    "distinct ks" "set ks = set (keys ?v)"
    using saveCache_listing [of e ?v] assms(1,2) m by auto
  have k: "set (keys ?v) = insert filename (set (keys w))" by (rule keys_update)
  have "(\<forall>k \<in> set ks. newline \<notin> set k \<and> dropCR k = k) \<longrightarrow> scanLines (listing ks) = ks"
  proof
    assume a: "\<forall>k \<in> set ks. newline \<notin> set k \<and> dropCR k = k"
    then have "scanLines (listing ks) = map dropCR ks" by (simp add: scanLines_listing)
    also have "\<dots> = ks" using a by (simp add: map_idI)
    finally show "scanLines (listing ks) = ks" .
  qed
  then show ?thesis using ks k m by auto
qed

lemma example_range: "rangeVisitsEachKeyOnce (exampleEnv bad feed)"
  by (simp add: rangeVisitsEachKeyOnce_def exampleEnv_def)

lemma example_mark:
  "markDownloaded (exampleEnv [] (onePage [])) ''k-new.png''
     (cachedWorld\<lparr>cacheFile := Some ''stale''\<rparr>) =
   (None,
    \<lparr> downloadedFiles =
        [(''k-https://cdn.example/img/one.png'', True), (''k-https://video.example/v.mp4'', True),
         (''k-new.png'', True)],
      cacheFile = Some (listing [''k-new.png'', ''k-https://video.example/v.mp4'',
        ''k-https://cdn.example/img/one.png'']),
      storage = [], calls = [CreateCacheFile True, WriteCacheFile True], stdout = [] \<rparr>)"
  by (simp add: markDownloaded_def saveCache_def exampleEnv_def cachedWorld_def emptyWorld_def
      keys_def called_def Let_def)

theorem listing_agrees_after_mark_witness:
  "fst (markDownloaded (exampleEnv [] (onePage [])) ''k-new.png''
     (cachedWorld\<lparr>cacheFile := Some ''stale''\<rparr>)) = None \<and>
   rangeVisitsEachKeyOnce (exampleEnv [] (onePage [])) \<and>
   wellFormed (cachedWorld\<lparr>cacheFile := Some ''stale''\<rparr>) \<and>
   (\<exists>ks. cacheFile (snd (markDownloaded (exampleEnv [] (onePage [])) ''k-new.png''
             (cachedWorld\<lparr>cacheFile := Some ''stale''\<rparr>))) = Some (listing ks) \<and>
         distinct ks \<and>
         set ks = insert ''k-new.png'' (set (keys (cachedWorld\<lparr>cacheFile := Some ''stale''\<rparr>))) \<and>
         (\<forall>k \<in> set ks. newline \<notin> set k \<and> dropCR k = k) \<and>
         scanLines (listing ks) = ks)"
proof -
  let ?e = "exampleEnv [] (onePage [])"
  let ?w = "cachedWorld\<lparr>cacheFile := Some ''stale''\<rparr>"
  have a: "fst (markDownloaded ?e ''k-new.png'' ?w) = None" by (simp add: example_mark)
  have b: "rangeVisitsEachKeyOnce ?e" by (rule example_range)
  have c: "wellFormed ?w" by (simp add: wellFormed_def keys_def cachedWorld_def emptyWorld_def)
  obtain ks where ks: "cacheFile (snd (markDownloaded ?e ''k-new.png'' ?w)) = Some (listing ks)"
    "distinct ks" "set ks = insert ''k-new.png'' (set (keys ?w))"
    "(\<forall>k \<in> set ks. newline \<notin> set k \<and> dropCR k = k) \<longrightarrow> scanLines (listing ks) = ks"
    using listing_agrees_after_mark [OF a b c] by blast
  have "\<forall>k \<in> set ks. newline \<notin> set k \<and> dropCR k = k"
    unfolding ks(3) by (simp add: keys_def cachedWorld_def emptyWorld_def newline_def dropCR_def)
  then show ?thesis using a b c ks by blast
qed

section \<open>Startup\<close>

lemma lookup_Nil [simp]: "lookup [] f = False"
  by (simp add: lookup_def)

lemma loadCache_ok:
  assumes "loadCache e w = (None, w')"
  shows "(\<forall>f. isDownloaded w' f = (isDownloaded w f \<or> f \<in> set (listed (cacheFile w)))) \<and>
         storage w' = storage w \<and> cacheFile w' = cacheFile w \<and>
         (wellFormed w \<longrightarrow> wellFormed w') \<and>
         filter isRetrievalCall (calls w') = filter isRetrievalCall (calls w)"
proof (cases "cacheFile w")
  case None
  then show ?thesis
    using assms by (auto simp: loadCache_def listed_def wellFormed_def split: if_splits)
next
  case (Some content)
  obtain m c where a: "loadLines (scanLines content) (downloadedFiles w) 0 = (m, c)"
    by (cases "loadLines (scanLines content) (downloadedFiles w) 0")
  have ok: "openCache e (calls w)" "scanCache e (calls w @ [OpenCacheFile True]) = ScanOk"
    using assms Some
    by (auto simp: loadCache_def Let_def split: if_splits scan_result.splits prod.splits)
  then have w': "w' = say (MsgCached c)
      (called (ScanCacheFile True) (called (OpenCacheFile True) w\<lparr>downloadedFiles := m\<rparr>))"
    using assms Some a by (simp add: loadCache_def Let_def)
  have "\<forall>f. lookup m f = (lookup (downloadedFiles w) f \<or> f \<in> set (listed (cacheFile w)))"
    using loadLines_lookup [OF a] Some by (simp add: listed_def)
  moreover have "distinct (map fst (downloadedFiles w)) \<longrightarrow> distinct (map fst m)"
    using loadLines_distinct [OF a] by blast
  ultimately show ?thesis
    unfolding w' using Some by (simp add: isDownloaded_def wellFormed_def keys_def)
qed

lemma sync_ok:
  assumes "syncCacheFromDirectory e w = (None, w')" and "rangeVisitsEachKeyOnce e"
    and "wellFormed w"
  shows "(\<forall>f. isDownloaded w' f = (isDownloaded w f \<or> (f, False) \<in> set (storage w))) \<and>
         filter isRetrievalCall (calls w') = filter isRetrievalCall (calls w) \<and>
         wellFormed w' \<and>
         ((\<exists>f. (f, False) \<in> set (storage w) \<and> \<not> isDownloaded w f) \<longrightarrow>
            (\<exists>ks. cacheFile w' = Some (listing ks) \<and> distinct ks \<and> set ks = set (keys w')))"
proof -
  obtain m added where s: "syncEntries (storage w) (downloadedFiles w) 0 = (m, added)"
    by (cases "syncEntries (storage w) (downloadedFiles w) 0")
  have rd: "readDir e (calls w)"
    using assms(1) by (auto simp: syncCacheFromDirectory_def Let_def split: if_splits)
  let ?w2 = "called (ReadDir True) w\<lparr>downloadedFiles := m\<rparr>"
  have l: "\<forall>f. lookup m f = (lookup (downloadedFiles w) f \<or> (f, False) \<in> set (storage w))"
    using syncEntries_lookup [OF s] by blast
  have d: "distinct (map fst m)"
    using syncEntries_distinct [OF s] assms(3) by (simp add: wellFormed_def keys_def)
  have ad: "0 < added \<longleftrightarrow> (\<exists>f. (f, False) \<in> set (storage w) \<and> \<not> isDownloaded w f)"
    using syncEntries_added [OF s] by (simp add: isDownloaded_def)
  show ?thesis
  proof (cases "0 < added")
    case False
    then have "w' = ?w2"
      using assms(1) s rd by (simp add: syncCacheFromDirectory_def Let_def)
    then show ?thesis
      using l d ad False by (auto simp: isDownloaded_def wellFormed_def keys_def)
  next
    case True
    let ?w3 = "say (MsgSynced added) ?w2"
    have sv: "saveCache e ?w3 = (None, w')"
      using assms(1) s rd True
      by (auto simp: syncCacheFromDirectory_def Let_def split: prod.splits option.splits)
    have wf3: "wellFormed ?w3" using d by (simp add: wellFormed_def keys_def)
    obtain ks where ks: "cacheFile w' = Some (listing ks)" "distinct ks" "set ks = set (keys ?w3)"
      using saveCache_listing [of e ?w3] sv assms(2) wf3 by auto
    have f: "downloadedFiles w' = m" "calls w' = calls ?w3 @ [CreateCacheFile True, WriteCacheFile True]"
      using saveCache_ok [OF sv] by simp_all
    have "set ks = set (keys w')" using ks(3) f(1) by (simp add: keys_def)
    then show ?thesis
      using l d f ks by (auto simp: isDownloaded_def wellFormed_def keys_def)
  qed
qed

text \<open>
  Claim C7. When \<open>NewMediaFetcher\<close> succeeds, every direct entry of the download directory
  that is not a directory is in the in-memory cache, whether the persisted listing
  existed or not; no call of a retrieval was made; and when some such entry was not
  named by the listing, the listing on disk is the whole in-memory map, each key once,
  one line each.
\<close>

theorem startup_reconciles:
  assumes "NewMediaFetcher e w0 = Inr w" and "rangeVisitsEachKeyOnce e"
  shows "(\<forall>filename. (filename, False) \<in> set (storage w0) \<longrightarrow> isDownloaded w filename) \<and>
         filter isRetrievalCall (calls w) = filter isRetrievalCall (calls w0) \<and>
         ((\<exists>filename. (filename, False) \<in> set (storage w0) \<and>
                      filename \<notin> set (listed (cacheFile w0))) \<longrightarrow>
            (\<exists>ks. cacheFile w = Some (listing ks) \<and> distinct ks \<and> set ks = set (keys w)))"
proof -
  let ?w4 = "(say MsgAuthenticated (called (CreateSession True)
      (say MsgAuthenticating (called (MkdirAll True) w0))))\<lparr>downloadedFiles := []\<rparr>"
  have ok: "mkdirAll e (calls w0)" "createSession e (calls w0 @ [MkdirAll True])"
    using assms(1) by (auto simp: NewMediaFetcher_def Let_def split: if_splits)
  obtain w5 where l: "loadCache e ?w4 = (None, w5)" and s: "syncCacheFromDirectory e w5 = (None, w)"
    using assms(1) ok
    by (auto simp: NewMediaFetcher_def Let_def split: prod.splits option.splits)
  have wf4: "wellFormed ?w4" by (simp add: wellFormed_def keys_def)
  have L: "\<forall>f. isDownloaded w5 f = (f \<in> set (listed (cacheFile w0)))"
    "storage w5 = storage w0" "wellFormed w5"
    "filter isRetrievalCall (calls w5) = filter isRetrievalCall (calls w0)"
    using loadCache_ok [OF l] wf4 by (simp_all add: isDownloaded_def)
  show ?thesis
    using sync_ok [OF s assms(2) L(3)] L by simp
qed

lemma example_startup:
  "NewMediaFetcher (exampleEnv [] (onePage [])) strayWorld =
   Inr \<lparr> downloadedFiles = [(''abc123.png'', True)],
         cacheFile = Some (listing [''abc123.png'']),
         storage = [(''abc123.png'', False), (''sub'', True)],
         calls = [MkdirAll True, CreateSession True, OpenCacheFile False, ReadDir True,
                  CreateCacheFile True, WriteCacheFile True],
         stdout = [MsgAuthenticating, MsgAuthenticated, MsgNoCacheFile, MsgSynced 1] \<rparr>"
  by (simp add: NewMediaFetcher_def loadCache_def syncCacheFromDirectory_def saveCache_def
      exampleEnv_def strayWorld_def emptyWorld_def keys_def called_def say_def Let_def lookup_def)

theorem startup_reconciles_witness:
  "NewMediaFetcher (exampleEnv [] (onePage [])) strayWorld =
   Inr \<lparr> downloadedFiles = [(''abc123.png'', True)],
         cacheFile = Some (listing [''abc123.png'']),
         storage = [(''abc123.png'', False), (''sub'', True)],
         calls = [MkdirAll True, CreateSession True, OpenCacheFile False, ReadDir True,
                  CreateCacheFile True, WriteCacheFile True],
         stdout = [MsgAuthenticating, MsgAuthenticated, MsgNoCacheFile, MsgSynced 1] \<rparr> \<and>
   rangeVisitsEachKeyOnce (exampleEnv [] (onePage [])) \<and>
   cacheFile strayWorld = None \<and>
   (''abc123.png'', False) \<in> set (storage strayWorld) \<and>
   ''abc123.png'' \<notin> set (listed (cacheFile strayWorld)) \<and>
   isDownloaded \<lparr> downloadedFiles = [(''abc123.png'', True)],
         cacheFile = Some (listing [''abc123.png'']),
         storage = [(''abc123.png'', False), (''sub'', True)],
         calls = [MkdirAll True, CreateSession True, OpenCacheFile False, ReadDir True,
                  CreateCacheFile True, WriteCacheFile True],
         stdout = [MsgAuthenticating, MsgAuthenticated, MsgNoCacheFile, MsgSynced 1] \<rparr>
     ''abc123.png''"
proof -
  have a: "(''abc123.png'', False) \<in> set (storage strayWorld)"
    by (simp add: strayWorld_def)
  have b: "cacheFile strayWorld = None"
    by (simp add: strayWorld_def emptyWorld_def)
  have c: "''abc123.png'' \<notin> set (listed (cacheFile strayWorld))"
    by (simp add: b listed_def)
  show ?thesis
    using a b c startup_reconciles [OF example_startup example_range]
    by (simp add: example_startup example_range)
qed

section \<open>Counting retrievals\<close>

lemma tally_say [simp]:
  "newFiles (say m w) = newFiles w"
  "failures (say m w) = failures w"
  "errorLines (say m w) = errorLines w + (if isErrorLine m then 1 else 0)"
  by (simp_all add: newFiles_def failures_def errorLines_def)

lemma tally_called [simp]:
  "newFiles (called c w) = newFiles w + (if retrieved c then 1 else 0)"
  "failures (called c w) = failures w + (if failed c then 1 else 0)"
  "errorLines (called c w) = errorLines w"
  by (simp_all add: newFiles_def failures_def errorLines_def)

lemma tally_storage [simp]:
  "newFiles (w\<lparr>storage := s\<rparr>) = newFiles w"
  "failures (w\<lparr>storage := s\<rparr>) = failures w"
  "errorLines (w\<lparr>storage := s\<rparr>) = errorLines w"
  by (simp_all add: newFiles_def failures_def errorLines_def)

lemma tally_downloadedFiles [simp]:
  "newFiles (w\<lparr>downloadedFiles := m\<rparr>) = newFiles w"
  "failures (w\<lparr>downloadedFiles := m\<rparr>) = failures w"
  "errorLines (w\<lparr>downloadedFiles := m\<rparr>) = errorLines w"
  by (simp_all add: newFiles_def failures_def errorLines_def)

lemma tally_cacheFile [simp]:
  "newFiles (w\<lparr>cacheFile := t\<rparr>) = newFiles w"
  "failures (w\<lparr>cacheFile := t\<rparr>) = failures w"
  "errorLines (w\<lparr>cacheFile := t\<rparr>) = errorLines w"
  by (simp_all add: newFiles_def failures_def errorLines_def)

lemma tally_saveCache [simp]:
  "newFiles (snd (saveCache e w)) = newFiles w"
  "failures (snd (saveCache e w)) = failures w"
  "errorLines (snd (saveCache e w)) = errorLines w"
  by (simp_all add: saveCache_def Let_def split: write_result.splits)

lemma tally_markDownloaded [simp]:
  "newFiles (snd (markDownloaded e f w)) = newFiles w"
  "failures (snd (markDownloaded e f w)) = failures w"
  "errorLines (snd (markDownloaded e f w)) = errorLines w"
  by (simp_all add: markDownloaded_def)

lemma recordSaved_tally:
  assumes "recordSaved e f w = (n, err, w')"
  shows "n = 1 \<and> err = None \<and> newFiles w' = newFiles w \<and> failures w' = failures w \<and>
         errorLines w' = errorLines w"
proof -
  obtain r v where m: "markDownloaded e f w = (r, v)" by (cases "markDownloaded e f w")
  have "newFiles v = newFiles w" "failures v = failures w" "errorLines v = errorLines w"
    using tally_markDownloaded [of e f w] m by simp_all
  then show ?thesis
    using assms m by (cases r) (auto simp: recordSaved_def)
qed

lemma downloadFile_tally:
  assumes "downloadFile e url mediaType w = (n, err, w')"
  shows "(n = 0 \<or> n = 1) \<and> (err \<noteq> None \<longrightarrow> n = 0) \<and>
         newFiles w' = newFiles w + n \<and>
         failures w' = failures w + (if err = None then 0 else 1) \<and>
         errorLines w' = errorLines w"
  using assms
  by (auto simp: downloadFile_def Let_def split: option.splits if_splits
      dest!: recordSaved_tally)

lemma downloadVideo_tally:
  assumes "downloadVideo e playlist w = (n, err, w')"
  shows "(n = 0 \<or> n = 1) \<and> (err \<noteq> None \<longrightarrow> n = 0) \<and>
         newFiles w' = newFiles w + n \<and>
         failures w' = failures w + (if err = None then 0 else 1) \<and>
         errorLines w' = errorLines w"
  using assms
  by (auto simp: downloadVideo_def Let_def split: ffmpeg_result.splits if_splits
      dest!: recordSaved_tally)

lemma imagesLoop_tally:
  "imagesLoop e images limit c w = (c', err, w') \<Longrightarrow>
   c \<le> c' \<and> (c \<le> limit \<longrightarrow> c' \<le> limit) \<and> (limit \<le> c \<longrightarrow> c' = c) \<and>
   newFiles w' = newFiles w + (c' - c) \<and>
   failures w' = failures w + (if err = None then 0 else 1) \<and>
   errorLines w' = errorLines w"
proof (induction images arbitrary: c w)
  case Nil
  then show ?case by simp
next
  case (Cons img images)
  show ?case
  proof (cases "c \<ge> limit")
    case True
    then show ?thesis using Cons.prems by simp
  next
    case False
    obtain n r w1 where d: "downloadFile e img ''image'' w = (n, r, w1)"
      by (cases "downloadFile e img ''image'' w")
    note t = downloadFile_tally [OF d]
    show ?thesis
    proof (cases r)
      case (Some er)
      then have "c' = c" "err = Some er" "w' = w1"
        using Cons.prems False d by simp_all
      then show ?thesis using t Some False by simp
    next
      case None
      then have "imagesLoop e images limit (c + n) w1 = (c', err, w')"
        using Cons.prems False d by simp
      from Cons.IH [OF this] show ?thesis using t None False by auto
    qed
  qed
qed

lemma counted_accounted:
  assumes "\<And>er. isErrorLine (errorMsg er)"
    and "0 \<le> n" and "c \<le> limit \<longrightarrow> c + n \<le> limit"
    and "newFiles w1 = newFiles w + n"
    and "failures w1 = failures w + (if err = None then 0 else 1)"
    and "errorLines w1 = errorLines w"
  shows "accounted limit (c, w) (counted errorMsg c (n, err, w1))"
  using assms by (cases err) (simp_all add: accounted_def counted_def)

lemma accounted_refl [simp]: "accounted limit cw cw"
  by (simp add: accounted_def)

lemma accounted_trans:
  "accounted limit a b \<Longrightarrow> accounted limit b c \<Longrightarrow> accounted limit a c"
  by (auto simp: accounted_def)

lemma imagesPart_accounted: "accounted limit (c, w) (imagesPart e limit view (c, w))"
proof (cases view)
  case None
  then show ?thesis by simp
next
  case (Some images)
  obtain n err w1 where d: "downloadImages e images (limit - c) w = (n, err, w1)"
    by (cases "downloadImages e images (limit - c) w")
  then have "imagesLoop e images (limit - c) 0 w = (n, err, w1)"
    by (simp add: downloadImages_def)
  from imagesLoop_tally [OF this] have "accounted limit (c, w) (counted MsgErrorImages c (n, err, w1))"
    by (intro counted_accounted) auto
  then show ?thesis using Some d by simp
qed

lemma videoPart_accounted: "accounted limit (c, w) (videoPart e limit view (c, w))"
proof (cases view)
  case None
  then show ?thesis by simp
next
  case (Some video)
  obtain n err w1 where d: "downloadVideo e video w = (n, err, w1)"
    by (cases "downloadVideo e video w")
  from downloadVideo_tally [OF d] have "c < limit \<longrightarrow> accounted limit (c, w) (counted MsgErrorVideo c (n, err, w1))"
    by (intro impI counted_accounted) auto
  then show ?thesis using Some d by simp
qed

lemma processEmbed_accounted: "accounted limit (c, w) (processEmbed e limit emb (c, w))"
proof -
  obtain c1 w1 where a: "imagesPart e limit (EmbedImages emb) (c, w) = (c1, w1)"
    by (cases "imagesPart e limit (EmbedImages emb) (c, w)")
  obtain c2 w2 where b: "videoPart e limit (EmbedVideo emb) (c1, w1) = (c2, w2)"
    by (cases "videoPart e limit (EmbedVideo emb) (c1, w1)")
  have 1: "accounted limit (c, w) (c1, w1)" using imagesPart_accounted [of limit c w e "EmbedImages emb"] a by simp
  have 2: "accounted limit (c1, w1) (c2, w2)" using videoPart_accounted [of limit c1 w1 e "EmbedVideo emb"] b by simp
  have 12: "accounted limit (c, w) (c2, w2)" using 1 2 by (rule accounted_trans)
  show ?thesis
  proof (cases "EmbedRecordWithMedia emb")
    case None
    then show ?thesis using a b 12 by (simp add: processEmbed_def Let_def)
  next
    case (Some rwm)
    show ?thesis
    proof (cases "c2 < limit \<and> rwm \<noteq> None")
      case False
      then show ?thesis using a b 12 Some by (auto simp: processEmbed_def Let_def)
    next
      case True
      then obtain media where m: "rwm = Some media" by auto
      obtain c3 w3 where x: "imagesPart e limit (MediaImages media) (c2, w2) = (c3, w3)"
        by (cases "imagesPart e limit (MediaImages media) (c2, w2)")
      have 3: "accounted limit (c2, w2) (c3, w3)"
        using imagesPart_accounted [of limit c2 w2 e "MediaImages media"] x by simp
      have 4: "accounted limit (c3, w3) (videoPart e limit (MediaVideo media) (c3, w3))"
        by (rule videoPart_accounted)
      have "accounted limit (c, w) (videoPart e limit (MediaVideo media) (c3, w3))"
        using 12 3 4 accounted_trans by blast
      then show ?thesis using a b Some m True x by (simp add: processEmbed_def Let_def)
    qed
  qed
qed


lemma feedLoop_accounted:
  "feedLoop e limit posts c pp w = (early, c', pp', w') \<Longrightarrow>
   accounted limit (c, w) (c', w') \<and> (early \<longrightarrow> limit \<le> c') \<and>
   (c' < limit \<longrightarrow> pp' = pp + int (length posts))"
proof (induction posts arbitrary: c pp w)
  case Nil
  then show ?case by simp
next
  case (Cons post posts)
  show ?case
  proof (cases "c \<ge> limit")
    case True
    then show ?thesis using Cons.prems by (auto simp: accounted_def)
  next
    case False
    let ?w1 = "say (MsgProcessing (pp + 1) c limit) (say MsgRestoreCursor w)"
    have s1: "accounted limit (c, w) (c, ?w1)" by (simp add: accounted_def)
    show ?thesis
    proof (cases "Embed post")
      case None
      then have "feedLoop e limit posts c (pp + 1) ?w1 = (early, c', pp', w')"
        using Cons.prems False by (simp add: Let_def)
      from Cons.IH [OF this] have ih: "accounted limit (c, ?w1) (c', w')"
        "early \<longrightarrow> limit \<le> c'" "c' < limit \<longrightarrow> pp' = pp + 1 + int (length posts)"
        by simp_all
      have "accounted limit (c, w) (c', w')" using s1 ih(1) by (rule accounted_trans)
      then show ?thesis using ih(2,3) by simp
    next
      case (Some emb)
      obtain c2 w2 where p: "processEmbed e limit emb (c, ?w1) = (c2, w2)"
        by (cases "processEmbed e limit emb (c, ?w1)")
      have s2: "accounted limit (c, ?w1) (c2, w2)"
        using processEmbed_accounted [of limit c ?w1 e emb] p by simp
      have "feedLoop e limit posts c2 (pp + 1) w2 = (early, c', pp', w')"
        using Cons.prems False Some p by (simp add: Let_def)
      from Cons.IH [OF this] have ih: "accounted limit (c2, w2) (c', w')"
        "early \<longrightarrow> limit \<le> c'" "c' < limit \<longrightarrow> pp' = pp + 1 + int (length posts)"
        by simp_all
      have "accounted limit (c, w) (c2, w2)" using s1 s2 by (rule accounted_trans)
      then have "accounted limit (c, w) (c', w')" using ih(1) by (rule accounted_trans)
      then show ?thesis using ih(2,3) by simp
    qed
  qed
qed

lemma pageLoop_accounted:
  "pageLoop fuel e limit cursor c pp w = (out, c', w') \<Longrightarrow> accounted limit (c, w) (c', w')"
proof (induction fuel arbitrary: cursor c pp w)
  case 0
  then show ?case by (auto simp: accounted_def split: if_splits)
next
  case (Suc fuel)
  show ?case
  proof (cases "c < limit")
    case False
    then show ?thesis using Suc.prems by (auto simp: accounted_def)
  next
    case True
    let ?resp = "feedGetActorLikes e (calls w) cursor"
    let ?w1 = "called (FeedGetActorLikes cursor (?resp \<noteq> None)) w"
    have s1: "accounted limit (c, w) (c, ?w1)" by (simp add: accounted_def)
    show ?thesis
    proof (cases ?resp)
      case None
      then show ?thesis using Suc.prems True by (auto simp: accounted_def Let_def)
    next
      case (Some out')
      show ?thesis
      proof (cases "Feed out' = []")
        case True
        then show ?thesis using Suc.prems \<open>c < limit\<close> Some by (auto simp: accounted_def Let_def)
      next
        case False
        obtain early c2 pp2 w2 where f: "feedLoop e limit (Feed out') c pp ?w1 = (early, c2, pp2, w2)"
          by (cases "feedLoop e limit (Feed out') c pp ?w1") auto
        have s2: "accounted limit (c, ?w1) (c2, w2)" using feedLoop_accounted [OF f] by simp
        have s12: "accounted limit (c, w) (c2, w2)" using s1 s2 by (rule accounted_trans)
        have s3: "accounted limit (c2, w2) (c2, say (MsgTotal c2) w2)" by (simp add: accounted_def)
        have s123: "accounted limit (c, w) (c2, say (MsgTotal c2) w2)"
          using s12 s3 by (rule accounted_trans)
        show ?thesis
        proof (cases "\<not> early \<and> Cursor out' \<noteq> None \<and> Cursor out' \<noteq> Some []")
          case False
          then show ?thesis
            using Suc.prems \<open>c < limit\<close> Some \<open>Feed out' \<noteq> []\<close> f s12 s123
            by (auto simp: Let_def split: option.splits if_splits bool.splits)
        next
          case True
          then obtain nxt where n: "Cursor out' = Some nxt" "nxt \<noteq> []" by auto
          have "pageLoop fuel e limit nxt c2 pp2 w2 = (out, c', w')"
            using Suc.prems \<open>c < limit\<close> Some \<open>Feed out' \<noteq> []\<close> f True n by (simp add: Let_def)
          from Suc.IH [OF this] have "accounted limit (c2, w2) (c', w')" .
          with s12 show ?thesis by (rule accounted_trans)
        qed
      qed
    qed
  qed
qed

text \<open>
  Claim C1. In a backfill with a budget \<open>N\<close> of zero or more, for every feed, every
  number of pages requested and every mix of cache hits, failures and successes, the
  \<^verbatim>\<open>downloadCount\<close> of \<open>FetchAndDownload\<close> is at most \<open>N\<close>, and it is the number of new files
  the run has completed.
\<close>

theorem budget_respected:
  assumes "0 \<le> N"
  shows "case FetchAndDownload fuel e N w of
           (out, downloadCount, w') \<Rightarrow>
             downloadCount \<le> N \<and> newFiles w' - newFiles w = downloadCount"
proof -
  obtain out downloadCount w' where r: "FetchAndDownload fuel e N w = (out, downloadCount, w')"
    by (cases "FetchAndDownload fuel e N w")
  have "accounted N (0, say MsgSaveCursor w) (downloadCount, w')"
    using pageLoop_accounted [of fuel e N "[]" 0 0 "say MsgSaveCursor w" out downloadCount w'] r
    by (simp add: FetchAndDownload_def)
  then show ?thesis using assms r by (simp add: accounted_def)
qed

section \<open>The example runs, evaluated\<close>

lemma exampleEnv_fields [simp]:
  "sha256hex (exampleEnv bad feed) url = ''k-'' @ url"
  "rangeOrder (exampleEnv bad feed) h ks = rev ks"
  "mkdirAll (exampleEnv bad feed) h = True"
  "createSession (exampleEnv bad feed) h = True"
  "openCache (exampleEnv bad feed) h = True"
  "scanCache (exampleEnv bad feed) h = ScanOk"
  "createCache (exampleEnv bad feed) h = True"
  "writeCache (exampleEnv bad feed) h = WriteOk"
  "readDir (exampleEnv bad feed) h = True"
  "feedGetActorLikes (exampleEnv bad feed) h cursor = feed cursor"
  "httpGet (exampleEnv bad feed) h url = (if url \<in> set bad then Some 404 else Some 200)"
  "osCreate (exampleEnv bad feed) h f = True"
  "ioCopy (exampleEnv bad feed) h f = True"
  "runFfmpeg (exampleEnv bad feed) h playlist = ExitZero"
  "ntfyPost (exampleEnv bad feed) h topic message = True"
  by (simp_all add: exampleEnv_def)

lemma example_names [simp]:
  "resolveFilename (exampleEnv bad feed) ''a'' ''image'' = ''k-a.png''"
  "resolveFilename (exampleEnv bad feed) ''b'' ''image'' = ''k-b.png''"
  "resolveFilename (exampleEnv bad feed) ''c'' ''image'' = ''k-c.png''"
  "resolveFilename (exampleEnv bad feed) ''d'' ''image'' = ''k-d.png''"
  by (simp_all add: resolveFilename_def resolveExt_def Ext_def)

lemmas example_defs =
  emptyWorld_def twoPosts_def imagePost_def onePage_def
  downloadFile_def recordSaved_def markDownloaded_def saveCache_def downloadImages_def
  processEmbed_def counted_def FetchAndDownload_def
  isDownloaded_def lookup_def keys_def createFile_def say_def called_def Let_def

lemma example_backfill:
  "FetchAndDownload (Suc 0) (exampleEnv [] (onePage twoPosts)) 3 emptyWorld =
   (Returned None, 3,
    \<lparr> downloadedFiles = [(''k-a.png'', True), (''k-b.png'', True), (''k-c.png'', True)],
      cacheFile = Some (listing [''k-c.png'', ''k-b.png'', ''k-a.png'']),
      storage = [(''k-a.png'', False), (''k-b.png'', False), (''k-c.png'', False)],
      calls =
        [FeedGetActorLikes [] True,
         HttpGet ''a'' (Some 200), OsCreate ''k-a.png'' True, IoCopy ''k-a.png'' True,
         CreateCacheFile True, WriteCacheFile True,
         HttpGet ''b'' (Some 200), OsCreate ''k-b.png'' True, IoCopy ''k-b.png'' True,
         CreateCacheFile True, WriteCacheFile True,
         HttpGet ''c'' (Some 200), OsCreate ''k-c.png'' True, IoCopy ''k-c.png'' True,
         CreateCacheFile True, WriteCacheFile True],
      stdout =
        [MsgSaveCursor, MsgRestoreCursor, MsgProcessing 1 0 3,
         MsgDownloading ''a'', MsgSaved ''k-a.png'', MsgDownloading ''b'', MsgSaved ''k-b.png'',
         MsgRestoreCursor, MsgProcessing 2 2 3,
         MsgDownloading ''c'', MsgSaved ''k-c.png'', MsgTotal 3] \<rparr>)"
  by (simp add: example_defs)

theorem budget_respected_witness:
  "(0 :: int) \<le> 3 \<and>
   fst (snd (FetchAndDownload (Suc 0) (exampleEnv [] (onePage twoPosts)) 3 emptyWorld)) = 3 \<and>
   newFiles (snd (snd (FetchAndDownload (Suc 0) (exampleEnv [] (onePage twoPosts)) 3 emptyWorld))) -
     newFiles emptyWorld = 3 \<and>
   HttpGet ''d'' (Some 200) \<notin>
     set (calls (snd (snd (FetchAndDownload (Suc 0) (exampleEnv [] (onePage twoPosts)) 3 emptyWorld))))"
proof -
  have a: "(0 :: int) \<le> 3" by simp
  show ?thesis
    using budget_respected [OF a, where fuel = "Suc 0" and e = "exampleEnv [] (onePage twoPosts)"
        and w = emptyWorld]
    by (simp add: example_backfill)
qed

section \<open>What a retriever adds to a run\<close>

lemma retrieverStep_refl [simp]: "retrieverStep w w"
  by (simp add: retrieverStep_def)

lemma retrieverStep_trans:
  assumes "retrieverStep a b" and "retrieverStep b c"
  shows "retrieverStep a c"
proof -
  obtain cs ms where 1: "calls b = calls a @ cs" "\<forall>c \<in> set cs. isRetrievalCall c \<or> isCacheWrite c"
    "stdout b = stdout a @ ms" "\<forall>m \<in> set ms. \<not> isNewLike m"
    using assms(1) unfolding retrieverStep_def by blast
  obtain cs' ms' where 2: "calls c = calls b @ cs'" "\<forall>c \<in> set cs'. isRetrievalCall c \<or> isCacheWrite c"
    "stdout c = stdout b @ ms'" "\<forall>m \<in> set ms'. \<not> isNewLike m"
    using assms(2) unfolding retrieverStep_def by blast
  have "calls c = calls a @ (cs @ cs')" "stdout c = stdout a @ (ms @ ms')"
    using 1 2 by simp_all
  moreover have "\<forall>c \<in> set (cs @ cs'). isRetrievalCall c \<or> isCacheWrite c"
    "\<forall>m \<in> set (ms @ ms'). \<not> isNewLike m"
    using 1 2 by auto
  ultimately show ?thesis unfolding retrieverStep_def by blast
qed

lemma retrieverStep_say: "\<not> isNewLike m \<Longrightarrow> retrieverStep w (say m w)"
  unfolding retrieverStep_def by (intro exI [of _ "[]"] exI [of _ "[m]"]) simp

lemma retrieverStep_called:
  "isRetrievalCall c \<or> isCacheWrite c \<Longrightarrow> retrieverStep w (called c w)"
  unfolding retrieverStep_def by (intro exI [of _ "[c]"] exI [of _ "[]"]) simp

lemma retrieverStep_fields:
  "calls v = calls w \<Longrightarrow> stdout v = stdout w \<Longrightarrow> retrieverStep w v"
  unfolding retrieverStep_def by (intro exI [of _ "[]"]) simp

lemma retrieverStep_saveCache: "retrieverStep w (snd (saveCache e w))"
proof (cases "createCache e (calls w)")
  case False
  then show ?thesis by (simp add: saveCache_def Let_def retrieverStep_called)
next
  case True
  let ?w1 = "called (CreateCacheFile True) w"
  have 1: "retrieverStep w ?w1" by (simp add: retrieverStep_called)
  have 2: "\<And>t ok. retrieverStep ?w1 (called (WriteCacheFile ok) (?w1\<lparr>cacheFile := t\<rparr>))"
    unfolding retrieverStep_def by (intro exI [of _ "[WriteCacheFile _]"] exI [of _ "[]"]) simp
  show ?thesis
    using True retrieverStep_trans [OF 1 2]
    by (simp add: saveCache_def Let_def split: write_result.splits)
qed

lemma retrieverStep_markDownloaded: "retrieverStep w (snd (markDownloaded e f w))"
proof -
  let ?v = "w\<lparr>downloadedFiles := AList.update f True (downloadedFiles w)\<rparr>"
  have "retrieverStep w ?v" by (simp add: retrieverStep_fields)
  moreover have "retrieverStep ?v (snd (saveCache e ?v))" by (rule retrieverStep_saveCache)
  ultimately show ?thesis unfolding markDownloaded_def by (rule retrieverStep_trans)
qed

lemma retrieverStep_recordSaved: "retrieverStep w (snd (snd (recordSaved e f w)))"
proof -
  obtain r v where m: "markDownloaded e f w = (r, v)" by (cases "markDownloaded e f w")
  have 1: "retrieverStep w v" using retrieverStep_markDownloaded [of w e f] m by simp
  have 2: "retrieverStep v (say (MsgSaved f) v)" by (simp add: retrieverStep_say)
  have 3: "\<And>er. retrieverStep v (say (MsgSaved f) (say (MsgWarnCache er) v))"
    by (intro retrieverStep_trans [OF retrieverStep_say retrieverStep_say]) simp_all
  show ?thesis
    using m retrieverStep_trans [OF 1 2] retrieverStep_trans [OF 1 3]
    by (cases r) (simp_all add: recordSaved_def)
qed

lemma retrieverStep_downloadFile: "retrieverStep w (snd (snd (downloadFile e url mediaType w)))"
proof (cases "isDownloaded w (resolveFilename e url mediaType)")
  case True
  then show ?thesis by (simp add: downloadFile_def retrieverStep_say)
next
  case False
  let ?f = "resolveFilename e url mediaType"
  let ?w1 = "say (MsgDownloading url) w"
  let ?w2 = "called (HttpGet url (httpGet e (calls ?w1) url)) ?w1"
  let ?w3 = "called (OsCreate ?f (osCreate e (calls ?w2) ?f)) ?w2"
  let ?w4 = "?w3\<lparr>storage := createFile ?f (storage ?w3)\<rparr>"
  let ?w5 = "called (IoCopy ?f (ioCopy e (calls ?w4) ?f)) ?w4"
  have 1: "retrieverStep w ?w1" by (simp add: retrieverStep_say)
  have 2: "retrieverStep w ?w2"
    by (rule retrieverStep_trans [OF 1]) (simp add: retrieverStep_called)
  have 3: "retrieverStep w ?w3"
    by (rule retrieverStep_trans [OF 2]) (simp add: retrieverStep_called)
  have 4: "retrieverStep w ?w4"
    by (rule retrieverStep_trans [OF 3]) (simp add: retrieverStep_fields)
  have 5: "retrieverStep w ?w5"
    by (rule retrieverStep_trans [OF 4]) (simp add: retrieverStep_called)
  have 6: "retrieverStep w (snd (snd (recordSaved e ?f ?w5)))"
    by (rule retrieverStep_trans [OF 5 retrieverStep_recordSaved])
  show ?thesis
    using False 2 3 5 6
    by (auto simp: downloadFile_def Let_def split: option.splits)
qed

lemma retrieverStep_downloadVideo: "retrieverStep w (snd (snd (downloadVideo e playlist w)))"
proof (cases "playlist = [] \<or> isDownloaded w (sha256hex e playlist @ ''.mp4'')")
  case True
  then show ?thesis by (auto simp: downloadVideo_def retrieverStep_say)
next
  case False
  let ?f = "sha256hex e playlist @ ''.mp4''"
  let ?w1 = "say (MsgDownloadingVideo playlist) w"
  have 1: "retrieverStep w ?w1" by (simp add: retrieverStep_say)
  have 2: "\<And>ok. retrieverStep w (called (Ffmpeg playlist ?f ok) ?w1)"
    by (rule retrieverStep_trans [OF 1]) (simp add: retrieverStep_called)
  have 3: "\<And>ok. retrieverStep w
      (called (Ffmpeg playlist ?f ok) (?w1\<lparr>storage := createFile ?f (storage ?w1)\<rparr>))"
  proof -
    fix ok
    have "retrieverStep ?w1 (?w1\<lparr>storage := createFile ?f (storage ?w1)\<rparr>)"
      by (simp add: retrieverStep_fields)
    then have "retrieverStep w (?w1\<lparr>storage := createFile ?f (storage ?w1)\<rparr>)"
      by (rule retrieverStep_trans [OF 1])
    then show "retrieverStep w
      (called (Ffmpeg playlist ?f ok) (?w1\<lparr>storage := createFile ?f (storage ?w1)\<rparr>))"
      by (rule retrieverStep_trans) (simp add: retrieverStep_called)
  qed
  have 4: "retrieverStep w (snd (snd (recordSaved e ?f
      (called (Ffmpeg playlist ?f True) (?w1\<lparr>storage := createFile ?f (storage ?w1)\<rparr>)))))"
    by (rule retrieverStep_trans [OF 3 retrieverStep_recordSaved])
  show ?thesis
    using False 2 3 4
    by (auto simp: downloadVideo_def Let_def split: ffmpeg_result.splits)
qed

lemma retrieverStep_imagesLoop:
  "retrieverStep w (snd (snd (imagesLoop e images limit c w)))"
proof (induction images arbitrary: c w)
  case Nil
  then show ?case by simp
next
  case (Cons img images)
  obtain n r w1 where d: "downloadFile e img ''image'' w = (n, r, w1)"
    by (cases "downloadFile e img ''image'' w")
  have 1: "retrieverStep w w1" using retrieverStep_downloadFile [of w e img "''image''"] d by simp
  have 2: "retrieverStep w (snd (snd (imagesLoop e images limit (c + n) w1)))"
    by (rule retrieverStep_trans [OF 1 Cons.IH])
  show ?case using d 1 2 by (cases r) simp_all
qed

lemma retrieverStep_allImages: "retrieverStep w (snd (snd (allImages e view w)))"
  by (cases view) (simp_all add: allImages_def downloadImages_def retrieverStep_imagesLoop)

lemma retrieverStep_theVideo: "retrieverStep w (snd (snd (theVideo e view w)))"
  by (cases view) (simp_all add: theVideo_def retrieverStep_downloadVideo)

lemma retrieverStep_andThen:
  assumes "retrieverStep w (snd (snd r))" and "\<And>v. retrieverStep v (snd (snd (f v)))"
  shows "retrieverStep w (snd (snd (andThen r f)))"
proof -
  obtain n err v where r: "r = (n, err, v)" by (cases r)
  obtain n' err' v' where f: "f v = (n', err', v')" by (cases "f v")
  have "retrieverStep v v'" using assms(2) [of v] f by simp
  then have "retrieverStep w v'" using assms(1) r retrieverStep_trans by auto
  then show ?thesis using assms(1) r f by (cases err) (simp_all add: andThen_def)
qed

lemma retrieverStep_downloadPostMedia:
  "retrieverStep w (snd (snd (downloadPostMedia e view w)))"
proof (cases view)
  case None
  then show ?thesis by (simp add: downloadPostMedia_def)
next
  case (Some emb)
  let ?r1 = "andThen (0, None, w) (allImages e (EmbedImages emb))"
  let ?r2 = "andThen ?r1 (theVideo e (EmbedVideo emb))"
  have 1: "retrieverStep w (snd (snd ?r1))"
    by (rule retrieverStep_andThen) (simp_all add: retrieverStep_allImages)
  have 2: "retrieverStep w (snd (snd ?r2))"
    by (rule retrieverStep_andThen [OF 1]) (rule retrieverStep_theVideo)
  have 3: "\<And>media. retrieverStep w (snd (snd (andThen (andThen ?r2 (allImages e (MediaImages media)))
      (theVideo e (MediaVideo media)))))"
    by (intro retrieverStep_andThen 2 retrieverStep_allImages retrieverStep_theVideo)
  show ?thesis
    using Some 2 3 by (auto simp: downloadPostMedia_def Let_def split: option.splits)
qed

lemma retrieverStep_notifications:
  assumes "retrieverStep w w'"
  shows "notifications w' = notifications w"
proof -
  obtain cs where cs: "calls w' = calls w @ cs" "\<forall>c \<in> set cs. isRetrievalCall c \<or> isCacheWrite c"
    using assms unfolding retrieverStep_def by blast
  have "\<And>c. isRetrievalCall c \<or> isCacheWrite c \<Longrightarrow> \<not> isNotification c"
  proof -
    fix c show "isRetrievalCall c \<or> isCacheWrite c \<Longrightarrow> \<not> isNotification c" by (cases c) simp_all
  qed
  then have "filter isNotification cs = []" using cs(2) by (simp add: filter_empty_conv)
  then show ?thesis using cs(1) by (simp add: notifications_def)
qed



section \<open>Watch mode: the files of an item\<close>

lemma downloadImages_newFiles:
  "downloadImages e images limit w = (n, err, w') \<Longrightarrow> newFiles w' = newFiles w + n"
  using imagesLoop_tally [of e images limit 0 w n err w'] by (simp add: downloadImages_def)

lemma allImages_newFiles: "allImages e view w = (n, err, w') \<Longrightarrow> newFiles w' = newFiles w + n"
  by (cases view) (auto simp: allImages_def dest: downloadImages_newFiles)

lemma theVideo_newFiles: "theVideo e view w = (n, err, w') \<Longrightarrow> newFiles w' = newFiles w + n"
  by (cases view) (auto simp: theVideo_def dest: downloadVideo_tally)

lemma andThen_newFiles:
  assumes "newFiles (snd (snd r)) = newFiles w + fst r"
    and "\<And>v n err v'. f v = (n, err, v') \<Longrightarrow> newFiles v' = newFiles v + n"
  shows "newFiles (snd (snd (andThen r f))) = newFiles w + fst (andThen r f)"
proof -
  obtain n err v where r: "r = (n, err, v)" by (cases r)
  obtain n' err' v' where f: "f v = (n', err', v')" by (cases "f v")
  have "newFiles v' = newFiles v + n'" using assms(2) [OF f] .
  then show ?thesis using assms(1) r f by (cases err) (simp_all add: andThen_def)
qed

lemma downloadPostMedia_newFiles:
  "newFiles (snd (snd (downloadPostMedia e view w))) =
     newFiles w + fst (downloadPostMedia e view w)"
proof (cases view)
  case None
  then show ?thesis by (simp add: downloadPostMedia_def)
next
  case (Some emb)
  let ?r1 = "andThen (0, None, w) (allImages e (EmbedImages emb))"
  let ?r2 = "andThen ?r1 (theVideo e (EmbedVideo emb))"
  have 1: "newFiles (snd (snd ?r1)) = newFiles w + fst ?r1"
    by (rule andThen_newFiles) (simp_all add: allImages_newFiles)
  have 2: "newFiles (snd (snd ?r2)) = newFiles w + fst ?r2"
    by (rule andThen_newFiles [OF 1]) (rule theVideo_newFiles)
  have 3: "\<And>media. newFiles (snd (snd (andThen (andThen ?r2 (allImages e (MediaImages media)))
        (theVideo e (MediaVideo media))))) =
      newFiles w + fst (andThen (andThen ?r2 (allImages e (MediaImages media)))
        (theVideo e (MediaVideo media)))"
    by (intro andThen_newFiles 2 allImages_newFiles theVideo_newFiles)
  show ?thesis
    using Some 2 3 by (auto simp: downloadPostMedia_def Let_def split: option.splits)
qed

lemma notifications_say [simp]: "notifications (say m w) = notifications w"
  by (simp add: notifications_def)

lemma newLikes_say [simp]:
  "newLikes (say m w) = newLikes w @ (if isNewLike m then [m] else [])"
  by (simp add: newLikes_def)

lemma notify_notifications:
  "notifications (notify e topic message w) =
     notifications w @
       (if topic = [] then [] else [NtfyPost topic message (ntfyPost e (calls w) topic message)])"
  by (simp add: notify_def Let_def notifications_def)

lemma notify_newLikes [simp]: "newLikes (notify e topic message w) = newLikes w"
  by (simp add: notify_def Let_def newLikes_def)

text \<open>
  Claim C4, as stated, fails: when a retrieval of the item fails, no notification is
  posted, whatever was retrieved before. The post has the images \<^verbatim>\<open>a\<close> and \<^verbatim>\<open>b\<close>; \<^verbatim>\<open>a\<close> is
  retrieved, \<^verbatim>\<open>b\<close> is answered with status 404: one new file, and no notification.
\<close>

theorem no_notification_after_partial_failure:
  "newFiles (snd (watchPost (exampleEnv [''b''] (onePage [])) ''topic''
      (imagePost ''p1'' [''a'', ''b'']) ({}, emptyWorld))) = 1 \<and>
   fst (downloadPostMedia (exampleEnv [''b''] (onePage []))
      (Embed (imagePost ''p1'' [''a'', ''b''])) (say (MsgNewLike ''p1'') emptyWorld)) = 1 \<and>
   notifications (snd (watchPost (exampleEnv [''b''] (onePage [])) ''topic''
      (imagePost ''p1'' [''a'', ''b'']) ({}, emptyWorld))) = []"
  by (simp add: example_defs downloadPostMedia_def allImages_def theVideo_def andThen_def
      newFiles_def notifications_def)

text \<open>
  Claim C4, amended. In watch mode, for a newly seen item, the count that
  \<open>downloadPostMedia\<close> returns is the number of new files retrieved for the item, and a
  notification is posted exactly when no retrieval of the item returned an error, that
  count is positive and a topic is configured; it is the only one, and it carries the
  count. After a failed retrieval no notification is posted for the item.
\<close>

theorem notification_after_clean_item:
  assumes "Uri post \<notin> seen"
  shows "case downloadPostMedia e (Embed post) (say (MsgNewLike (Uri post)) w) of
           (downloaded, err, w1) \<Rightarrow>
             downloaded = newFiles w1 - newFiles w \<and>
             notifications (snd (watchPost e ntfyTopic post (seen, w))) =
               notifications w @
                 (if err = None \<and> 0 < downloaded \<and> ntfyTopic \<noteq> []
                  then [NtfyPost ntfyTopic (NoteDownloaded downloaded)
                          (ntfyPost e (calls w1) ntfyTopic (NoteDownloaded downloaded))]
                  else [])"
proof -
  let ?w0 = "say (MsgNewLike (Uri post)) w"
  obtain downloaded err w1 where d: "downloadPostMedia e (Embed post) ?w0 = (downloaded, err, w1)"
    by (cases "downloadPostMedia e (Embed post) ?w0")
  have n: "newFiles w1 = newFiles w + downloaded"
    using downloadPostMedia_newFiles [of e "Embed post" ?w0] d by simp
  have "retrieverStep ?w0 w1"
    using retrieverStep_downloadPostMedia [of ?w0 e "Embed post"] d by simp
  then have q: "notifications w1 = notifications w"
    using retrieverStep_notifications by fastforce
  show ?thesis
    using assms d n q
    by (cases err) (simp_all add: Let_def notify_notifications)
qed


lemma example_clean_item:
  "fst (downloadPostMedia (exampleEnv [] (onePage []))
      (Embed (imagePost ''p1'' [''a'', ''b''])) (say (MsgNewLike ''p1'') emptyWorld)) = 2"
  "fst (snd (downloadPostMedia (exampleEnv [] (onePage []))
      (Embed (imagePost ''p1'' [''a'', ''b''])) (say (MsgNewLike ''p1'') emptyWorld))) = None"
  by (simp_all add: example_defs downloadPostMedia_def allImages_def theVideo_def andThen_def)

theorem notification_after_clean_item_witness:
  "Uri (imagePost ''p1'' [''a'', ''b'']) \<notin> ({} :: string set) \<and>
   fst (downloadPostMedia (exampleEnv [] (onePage []))
      (Embed (imagePost ''p1'' [''a'', ''b''])) (say (MsgNewLike ''p1'') emptyWorld)) = 2 \<and>
   notifications (snd (watchPost (exampleEnv [] (onePage [])) ''topic''
      (imagePost ''p1'' [''a'', ''b'']) ({}, emptyWorld))) =
     [NtfyPost ''topic'' (NoteDownloaded 2) True]"
proof -
  have a: "Uri (imagePost ''p1'' [''a'', ''b'']) \<notin> ({} :: string set)" by simp
  have u: "Uri (imagePost ''p1'' [''a'', ''b'']) = ''p1''" by (simp add: imagePost_def)
  have n: "notifications emptyWorld = []" by (simp add: notifications_def emptyWorld_def)
  show ?thesis
    using notification_after_clean_item [OF a, where e = "exampleEnv [] (onePage [])"
        and w = emptyWorld and ntfyTopic = "''topic''"]
      example_clean_item
    by (simp add: u n case_prod_beta)
qed

section \<open>Watch mode: which items are new\<close>





lemma novel_seen: "set uris \<subseteq> seen \<Longrightarrow> novel seen uris = []"
  by (induction uris arbitrary: seen) auto

lemma novel_filter: "distinct uris \<Longrightarrow> novel seen uris = filter (\<lambda>uri. uri \<notin> seen) uris"
proof (induction uris arbitrary: seen)
  case Nil
  then show ?case by simp
next
  case (Cons uri uris)
  then have "filter (\<lambda>u. u \<notin> insert uri seen) uris = filter (\<lambda>u. u \<notin> seen) uris"
    by (intro filter_cong) auto
  then show ?case using Cons by simp
qed






lemma newLikes_called [simp]: "newLikes (called c w) = newLikes w"
  by (simp add: newLikes_def)



section \<open>A failed retrieval\<close>





lemma attempted_say [simp]: "attempted (say m w) url = attempted w url"
  by (simp add: attempted_def)




lemma tally_notify [simp]:
  "failures (notify e topic message w) = failures w"
  "errorLines (notify e topic message w) = errorLines w"
  by (simp_all add: notify_def Let_def)
















section \<open>The media references of an item, retrieved in turn\<close>













section \<open>Watch mode: what a poll does with the items of a page\<close>











lemma pollEnv_fields [simp]:
  "sha256hex pollEnv url = ''k-'' @ url"
  "rangeOrder pollEnv h ks = rev ks"
  "createCache pollEnv h = True"
  "writeCache pollEnv h = WriteOk"
  "feedGetActorLikes pollEnv h cursor =
     Some \<lparr> Feed = (if h = [] then likedBefore else likedNow), Cursor = None \<rparr>"
  "httpGet pollEnv h url = Some 200"
  "osCreate pollEnv h f = True"
  "ioCopy pollEnv h f = True"
  "runFfmpeg pollEnv h playlist = ExitZero"
  "ntfyPost pollEnv h topic message = True"
  by (simp_all add: pollEnv_def)




lemma example_name_id [simp]: "resolveFilename pollEnv ''id'' ''image'' = ''k-id.png''"
  by (simp add: resolveFilename_def resolveExt_def Ext_def)




section \<open>The walk after a failed retrieval\<close>
























end
